theory Spec2Isabelle
  imports Main "HOL-Library.Word" "HOL-Library.Finite_Map" "HOL-Library.Monad_Syntax"
begin

section \<open>Data model (internal/models/model.cache.go)\<close>

text \<open>
  Entries live on the Go heap and are shared between the index map and the doubly linked
  recency list, so the model keeps an explicit store: an address is a natural number, a
  pointer is an \<open>addr option\<close> (\<open>None\<close> is Go's \<open>nil\<close>), and dereferencing \<open>nil\<close> is a panic,
  which every operation below reports as the result \<open>None\<close>.

  A \<open>time.Time\<close> is the number of nanoseconds since the Unix epoch, a \<open>time.Duration\<close> a
  number of nanoseconds, both as unbounded integers. Every call of \<open>time.Now()\<close> in the
  source is an argument of the modelled function, one argument per call.
  The \<open>interface{}\<close> value of an entry is \<open>'v option\<close>, \<open>None\<close> being the \<open>nil\<close> interface.
\<close>

type_synonym addr = nat

record 'v CacheEntry =
  Key :: string
  Value :: "'v option"
  Expiration :: int
  CreatedAt :: int
  AccessedAt :: int
  Prev :: "addr option"
  Next :: "addr option"

text \<open>\<open>Time.Unix()\<close>: whole seconds since the epoch, rounded towards minus infinity.\<close>

definition Unix :: "int \<Rightarrow> int" where
  "Unix t = t div 1000000000"

text \<open>The zero \<open>time.Time\<close> (January 1, year 1, 00:00 UTC).\<close>

definition zeroTime :: int where
  "zeroTime = - 62135596800 * 1000000000"

text \<open>\<open>&models.CacheEntry{}\<close>: every field at its zero value.\<close>

definition zeroEntry :: "'v CacheEntry" where
  "zeroEntry = \<lparr>Key = [], Value = None, Expiration = 0, CreatedAt = zeroTime,
     AccessedAt = zeroTime, Prev = None, Next = None\<rparr>"

definition IsExpired :: "int \<Rightarrow> 'v CacheEntry \<Rightarrow> bool" where
  "IsExpired now ce = (if Expiration ce = 0 then False else Unix now > Expiration ce)"

definition UpdateAccessTime :: "int \<Rightarrow> 'v CacheEntry \<Rightarrow> 'v CacheEntry" where
  "UpdateAccessTime now ce = ce\<lparr>AccessedAt := now\<rparr>"

record 'v GetResponse =
  rKey :: string
  rValue :: "'v option"
  rFound :: bool
  rExpired :: bool
  rCreatedAt :: int
  rAccessedAt :: int

definition ToResponse :: "int \<Rightarrow> 'v CacheEntry \<Rightarrow> 'v GetResponse" where
  "ToResponse now ce = \<lparr>rKey = Key ce, rValue = Value ce, rFound = True,
     rExpired = IsExpired now ce, rCreatedAt = CreatedAt ce, rAccessedAt = AccessedAt ce\<rparr>"

record 'v BulkGetResponse =
  Results :: "(string, 'v GetResponse) fmap"
  Found :: int
  NotFound :: int

section \<open>The cache service (internal/service/service.cache.go)\<close>

text \<open>
  \<open>store\<close> is the heap of entries and \<open>fresh\<close> the next address the allocator hands out;
  \<open>head\<close> and \<open>tail\<close> are the addresses of the two sentinel nodes. The four counters are
  \<open>int64\<close> in the source and wrap accordingly.
\<close>

record 'v CacheService =
  store :: "addr \<Rightarrow> 'v CacheEntry"
  fresh :: addr
  data :: "(string, addr) fmap"
  head :: addr
  tail :: addr
  maxSize :: int
  defaultTTL :: int
  startTime :: int
  hits :: "64 word"
  misses :: "64 word"
  evictions :: "64 word"
  expiredRemovals :: "64 word"

text \<open>\<open>len(cs.data)\<close>.\<close>

definition len :: "(string, addr) fmap \<Rightarrow> int" where
  "len m = int (fcard (fmdom m))"

text \<open>Assignment to fields of the entry at address \<open>a\<close>.\<close>

definition upd :: "addr \<Rightarrow> ('v CacheEntry \<Rightarrow> 'v CacheEntry) \<Rightarrow> 'v CacheService \<Rightarrow> 'v CacheService" where
  "upd a f cs = cs\<lparr>store := (store cs)(a := f (store cs a))\<rparr>"

definition NewCacheService :: "int \<Rightarrow> int \<Rightarrow> int \<Rightarrow> 'v CacheService" where
  "NewCacheService maxSize' defaultTTL' now =
     (let service = \<lparr>store = (\<lambda>_. zeroEntry), fresh = 2, data = fmempty, head = 0, tail = 1,
            maxSize = maxSize', defaultTTL = defaultTTL', startTime = now,
            hits = 0, misses = 0, evictions = 0, expiredRemovals = 0\<rparr>;
          service = upd (head service) (\<lambda>e. e\<lparr>Next := Some (tail service)\<rparr>) service;
          service = upd (tail service) (\<lambda>e. e\<lparr>Prev := Some (head service)\<rparr>) service
      in service)"

subsection \<open>Internal methods for LRU management\<close>

definition addToHead :: "addr \<Rightarrow> 'v CacheService \<Rightarrow> 'v CacheService option" where
  "addToHead entry cs = do {
     let cs = upd entry (\<lambda>e. e\<lparr>Prev := Some (head cs)\<rparr>) cs;
     let cs = upd entry (\<lambda>e. e\<lparr>Next := Next (store cs (head cs))\<rparr>) cs;
     n \<leftarrow> Next (store cs (head cs));
     let cs = upd n (\<lambda>e. e\<lparr>Prev := Some entry\<rparr>) cs;
     Some (upd (head cs) (\<lambda>e. e\<lparr>Next := Some entry\<rparr>) cs)
   }"

definition removeFromList :: "addr \<Rightarrow> 'v CacheService \<Rightarrow> 'v CacheService option" where
  "removeFromList entry cs = do {
     p \<leftarrow> Prev (store cs entry);
     let cs = upd p (\<lambda>e. e\<lparr>Next := Next (store cs entry)\<rparr>) cs;
     n \<leftarrow> Next (store cs entry);
     Some (upd n (\<lambda>e. e\<lparr>Prev := Prev (store cs entry)\<rparr>) cs)
   }"

definition moveToHead :: "addr \<Rightarrow> 'v CacheService \<Rightarrow> 'v CacheService option" where
  "moveToHead entry cs = do {
     cs \<leftarrow> removeFromList entry cs;
     addToHead entry cs
   }"

definition removeEntry :: "addr \<Rightarrow> 'v CacheService \<Rightarrow> 'v CacheService option" where
  "removeEntry entry cs = do {
     let cs = cs\<lparr>data := fmdrop (Key (store cs entry)) (data cs)\<rparr>;
     removeFromList entry cs
   }"

definition evictLRU :: "'v CacheService \<Rightarrow> 'v CacheService option" where
  "evictLRU cs =
     (if Prev (store cs (tail cs)) \<noteq> Some (head cs) then do {
        lru \<leftarrow> Prev (store cs (tail cs));
        cs \<leftarrow> removeEntry lru cs;
        Some (cs\<lparr>evictions := evictions cs + 1\<rparr>)
      } else Some cs)"

subsection \<open>Public operations\<close>

datatype error = InvalidKey

text \<open>
  \<open>Put\<close>: \<open>tExp\<close> is the clock read for the expiration, \<open>now\<close> the one read for the
  timestamps; \<open>ttl\<close> is the \<open>*time.Duration\<close> argument. The result is \<open>None\<close> on a panic,
  otherwise the returned \<open>error\<close> (\<open>None\<close> for \<open>nil\<close>) and the state.
\<close>

definition Put ::
  "int \<Rightarrow> int \<Rightarrow> string \<Rightarrow> 'v option \<Rightarrow> int option \<Rightarrow> 'v CacheService
     \<Rightarrow> (error option \<times> 'v CacheService) option" where
  "Put tExp now key val ttl cs =
     (if key = [] then Some (Some InvalidKey, cs)
      else
        let expiration =
          (if ttl \<noteq> None \<and> the ttl > 0 then Unix (tExp + the ttl)
           else if defaultTTL cs > 0 then Unix (tExp + defaultTTL cs)
           else 0)
        in case fmlookup (data cs) key of
          Some entry \<Rightarrow> do {
            let cs = upd entry (\<lambda>e. e\<lparr>Value := val\<rparr>) cs;
            let cs = upd entry (\<lambda>e. e\<lparr>Expiration := expiration\<rparr>) cs;
            let cs = upd entry (\<lambda>e. e\<lparr>AccessedAt := now\<rparr>) cs;
            cs \<leftarrow> moveToHead entry cs;
            Some (None, cs)
          }
        | None \<Rightarrow> do {
            let entry = fresh cs;
            let cs = cs\<lparr>store := (store cs)(entry := \<lparr>Key = key, Value = val,
                        Expiration = expiration, CreatedAt = now, AccessedAt = now,
                        Prev = None, Next = None\<rparr>),
                      fresh := Suc entry\<rparr>;
            cs \<leftarrow> (if len (data cs) \<ge> maxSize cs then evictLRU cs else Some cs);
            let cs = cs\<lparr>data := fmupd key entry (data cs)\<rparr>;
            cs \<leftarrow> addToHead entry cs;
            Some (None, cs)
          })"

text \<open>
  \<open>Get\<close>: \<open>tChk\<close> is the clock read by \<open>IsExpired\<close>, \<open>tAcc\<close> the one read by
  \<open>UpdateAccessTime\<close>. The result is the returned entry pointer and flag, and the state.
\<close>

definition Get ::
  "int \<Rightarrow> int \<Rightarrow> string \<Rightarrow> 'v CacheService \<Rightarrow> ((addr option \<times> bool) \<times> 'v CacheService) option" where
  "Get tChk tAcc key cs =
     (if key = [] then Some ((None, False), cs)
      else case fmlookup (data cs) key of
        None \<Rightarrow> Some ((None, False), cs\<lparr>misses := misses cs + 1\<rparr>)
      | Some entry \<Rightarrow>
          if IsExpired tChk (store cs entry) then do {
            cs \<leftarrow> removeEntry entry cs;
            let cs = cs\<lparr>expiredRemovals := expiredRemovals cs + 1\<rparr>;
            let cs = cs\<lparr>misses := misses cs + 1\<rparr>;
            Some ((None, False), cs)
          } else do {
            let cs = upd entry (UpdateAccessTime tAcc) cs;
            cs \<leftarrow> moveToHead entry cs;
            let cs = cs\<lparr>hits := hits cs + 1\<rparr>;
            Some ((Some entry, True), cs)
          })"

definition Delete :: "string \<Rightarrow> 'v CacheService \<Rightarrow> ((bool \<times> bool) \<times> 'v CacheService) option" where
  "Delete key cs =
     (if key = [] then Some ((False, False), cs)
      else case fmlookup (data cs) key of
        None \<Rightarrow> Some ((False, False), cs)
      | Some entry \<Rightarrow> do {
          cs \<leftarrow> removeEntry entry cs;
          Some ((True, True), cs)
        })"

definition Clear :: "'v CacheService \<Rightarrow> int \<times> 'v CacheService" where
  "Clear cs =
     (let itemsCleared = len (data cs);
          cs = cs\<lparr>data := fmempty\<rparr>;
          cs = upd (head cs) (\<lambda>e. e\<lparr>Next := Some (tail cs)\<rparr>) cs;
          cs = upd (tail cs) (\<lambda>e. e\<lparr>Prev := Some (head cs)\<rparr>) cs
      in (itemsCleared, cs))"

text \<open>
  \<open>cleanupExpired\<close>: \<open>ks\<close> is the order in which \<open>range cs.data\<close> yields the keys (Go
  leaves it unspecified) and \<open>clk key\<close> the clock read by \<open>IsExpired\<close> when the first
  loop is at \<open>key\<close>. \<open>expiredKeys\<close> is the first loop, \<open>removeExpired\<close> the second.
\<close>

definition expiredKeys :: "(string \<Rightarrow> int) \<Rightarrow> string list \<Rightarrow> 'v CacheService \<Rightarrow> string list" where
  "expiredKeys clk ks cs =
     filter (\<lambda>key. case fmlookup (data cs) key of
                      Some entry \<Rightarrow> IsExpired (clk key) (store cs entry)
                    | None \<Rightarrow> False) ks"

fun removeExpired :: "string list \<Rightarrow> 'v CacheService \<Rightarrow> 'v CacheService option" where
  "removeExpired [] cs = Some cs"
| "removeExpired (key # keys) cs =
     (case fmlookup (data cs) key of
        Some entry \<Rightarrow>
          (case removeEntry entry cs of
             None \<Rightarrow> None
           | Some cs \<Rightarrow> removeExpired keys (cs\<lparr>expiredRemovals := expiredRemovals cs + 1\<rparr>))
      | None \<Rightarrow> removeExpired keys cs)"

definition cleanupExpired :: "(string \<Rightarrow> int) \<Rightarrow> string list \<Rightarrow> 'v CacheService \<Rightarrow> 'v CacheService option" where
  "cleanupExpired clk ks cs = removeExpired (expiredKeys clk ks cs) cs"

text \<open>
  \<open>BulkGet\<close>: the loop over \<open>keys\<close>; \<open>clk i\<close> gives the three clock reads of iteration
  \<open>i\<close> (by \<open>IsExpired\<close> and \<open>UpdateAccessTime\<close> inside \<open>Get\<close>, and by \<open>ToResponse\<close>).
\<close>

definition notFoundResponse :: "string \<Rightarrow> 'v GetResponse" where
  "notFoundResponse key = \<lparr>rKey = key, rValue = None, rFound = False, rExpired = False,
     rCreatedAt = zeroTime, rAccessedAt = zeroTime\<rparr>"

fun bulkGetLoop ::
  "(nat \<Rightarrow> int \<times> int \<times> int) \<Rightarrow> nat \<Rightarrow> string list \<Rightarrow> 'v BulkGetResponse \<Rightarrow> 'v CacheService
     \<Rightarrow> ('v BulkGetResponse \<times> 'v CacheService) option" where
  "bulkGetLoop clk i [] response cs = Some (response, cs)"
| "bulkGetLoop clk i (key # keys) response cs =
     (case clk i of (tChk, tAcc, tResp) \<Rightarrow>
        (case Get tChk tAcc key cs of
           None \<Rightarrow> None
         | Some ((entry, found), cs) \<Rightarrow>
             if found then
               (case entry of
                  None \<Rightarrow> None
                | Some e \<Rightarrow>
                    bulkGetLoop clk (Suc i) keys
                      (response\<lparr>Results := fmupd key (ToResponse tResp (store cs e)) (Results response),
                                Found := Found response + 1\<rparr>) cs)
             else
               bulkGetLoop clk (Suc i) keys
                 (response\<lparr>Results := fmupd key (notFoundResponse key) (Results response),
                           NotFound := NotFound response + 1\<rparr>) cs))"

definition BulkGet ::
  "(nat \<Rightarrow> int \<times> int \<times> int) \<Rightarrow> string list \<Rightarrow> 'v CacheService
     \<Rightarrow> ('v BulkGetResponse \<times> 'v CacheService) option" where
  "BulkGet clk keys cs = bulkGetLoop clk 0 keys \<lparr>Results = fmempty, Found = 0, NotFound = 0\<rparr> cs"

section \<open>Sequences of operations\<close>

text \<open>
  The service serialises its operations with one lock, so a history of the cache is a
  list of operations applied one after the other, the background sweep being one of them.
\<close>

datatype 'v op =
    OpPut int int string "'v option" "int option"
  | OpGet int int string
  | OpDelete string
  | OpClear
  | OpSweep "string \<Rightarrow> int" "string list"

fun step :: "'v op \<Rightarrow> 'v CacheService \<Rightarrow> 'v CacheService option" where
  "step (OpPut tExp now key val ttl) cs = map_option snd (Put tExp now key val ttl cs)"
| "step (OpGet tChk tAcc key) cs = map_option snd (Get tChk tAcc key cs)"
| "step (OpDelete key) cs = map_option snd (Delete key cs)"
| "step OpClear cs = Some (snd (Clear cs))"
| "step (OpSweep clk ks) cs = cleanupExpired clk ks cs"

fun run :: "'v op list \<Rightarrow> 'v CacheService \<Rightarrow> 'v CacheService option" where
  "run [] cs = Some cs"
| "run (x # xs) cs = (case step x cs of None \<Rightarrow> None | Some cs' \<Rightarrow> run xs cs')"

text \<open>
  The key an operation touches: a \<open>Put\<close> that is accepted touches its key, a \<open>Get\<close> that
  finds a live entry touches its key, nothing else touches anything. \<open>touches\<close> lists the
  touched keys of a history, the latest first, and \<open>age log k\<close> counts the touches that
  came after the latest touch of \<open>k\<close>.
\<close>

fun touched :: "'v op \<Rightarrow> 'v CacheService \<Rightarrow> string option" where
  "touched (OpPut tExp now key val ttl) cs = (if key = [] then None else Some key)"
| "touched (OpGet tChk tAcc key) cs =
     (if key = [] then None
      else case fmlookup (data cs) key of
        None \<Rightarrow> None
      | Some entry \<Rightarrow> if IsExpired tChk (store cs entry) then None else Some key)"
| "touched (OpDelete key) cs = None"
| "touched OpClear cs = None"
| "touched (OpSweep clk ks) cs = None"

fun touches :: "'v op list \<Rightarrow> 'v CacheService \<Rightarrow> string list \<Rightarrow> string list" where
  "touches [] cs log = log"
| "touches (x # xs) cs log =
     (case step x cs of
        None \<Rightarrow> log
      | Some cs' \<Rightarrow> touches xs cs' (case touched x cs of None \<Rightarrow> log | Some k \<Rightarrow> k # log))"

fun age :: "string list \<Rightarrow> string \<Rightarrow> nat" where
  "age [] k = 0"
| "age (x # xs) k = (if x = k then 0 else Suc (age xs k))"

section \<open>The recency list and the invariant of the service\<close>

text \<open>
  \<open>dll h p as q\<close>: in the store \<open>h\<close> the nodes \<open>as\<close> are linked, in this order and in both
  directions, between the nodes \<open>p\<close> and \<open>q\<close>.
\<close>

fun dll :: "(addr \<Rightarrow> 'v CacheEntry) \<Rightarrow> addr \<Rightarrow> addr list \<Rightarrow> addr \<Rightarrow> bool" where
  "dll h p [] q = (Next (h p) = Some q \<and> Prev (h q) = Some p)"
| "dll h p (a # as) q = (Next (h p) = Some a \<and> Prev (h a) = Some p \<and> dll h a as q)"

definition keysOf :: "(addr \<Rightarrow> 'v CacheEntry) \<Rightarrow> addr list \<Rightarrow> string list" where
  "keysOf h as = map (\<lambda>a. Key (h a)) as"

text \<open>
  \<open>cache_inv cs as\<close>: the recency list of \<open>cs\<close>, from the node after \<open>head\<close> (most recently
  used) to the node before \<open>tail\<close> (least recently used), is \<open>as\<close>; its nodes are allocated
  and distinct, their keys are distinct and not empty, and the index \<open>data\<close> maps exactly
  these keys, each to its node.
\<close>

definition cache_inv :: "'v CacheService \<Rightarrow> addr list \<Rightarrow> bool" where
  "cache_inv cs as \<longleftrightarrow>
     dll (store cs) (head cs) as (tail cs) \<and>
     distinct (head cs # tail cs # as) \<and>
     (\<forall>a\<in>set (head cs # tail cs # as). a < fresh cs) \<and>
     distinct (keysOf (store cs) as) \<and>
     [] \<notin> set (keysOf (store cs) as) \<and>
     fmdom (data cs) = fset_of_list (keysOf (store cs) as) \<and>
     (\<forall>a\<in>set as. fmlookup (data cs) (Key (store cs a)) = Some a)"

text \<open>\<open>links_only h h'\<close>: the stores differ in \<open>Prev\<close> and \<open>Next\<close> fields only.\<close>

definition links_only :: "(addr \<Rightarrow> 'v CacheEntry) \<Rightarrow> (addr \<Rightarrow> 'v CacheEntry) \<Rightarrow> bool" where
  "links_only h h' \<longleftrightarrow> (\<forall>a. h' a = (h a)\<lparr>Prev := Prev (h' a), Next := Next (h' a)\<rparr>)"

section \<open>Definitions for the statements of the properties\<close>

text \<open>The value \<open>Put\<close> computes for its local variable \<open>expiration\<close>.\<close>

definition putExpiration :: "int \<Rightarrow> int option \<Rightarrow> 'v CacheService \<Rightarrow> int" where
  "putExpiration tExp ttl cs =
     (if ttl \<noteq> None \<and> the ttl > 0 then Unix (tExp + the ttl)
      else if defaultTTL cs > 0 then Unix (tExp + defaultTTL cs)
      else 0)"

text \<open>
  The duration \<open>Put\<close> adds to the clock for the expiration: the \<open>ttl\<close> argument when it is
  given and positive, else the default TTL when that is positive, else none.
\<close>

definition effectiveTTL :: "int option \<Rightarrow> 'v CacheService \<Rightarrow> int option" where
  "effectiveTTL ttl cs =
     (if ttl \<noteq> None \<and> the ttl > 0 then ttl
      else if defaultTTL cs > 0 then Some (defaultTTL cs)
      else None)"

text \<open>
  \<open>keys_after t P K\<close>: the keys \<open>K\<close> of the recency list after an operation that removed
  the keys failing \<open>P\<close> and touched the key \<open>t\<close>, if any, which moves it to the front.
\<close>

definition keys_after :: "string option \<Rightarrow> (string \<Rightarrow> bool) \<Rightarrow> string list \<Rightarrow> string list" where
  "keys_after t P K = (case t of None \<Rightarrow> filter P K | Some k \<Rightarrow> k # filter (\<lambda>y. P y \<and> y \<noteq> k) K)"

text \<open>
  \<open>getEach\<close> follows the words of the specification of \<open>BulkGet\<close>: \<open>Get\<close> applied once
  per element of the list, in the order of the list, each on the state the previous one
  left, and for each the response of a single \<open>Get\<close>: the value and metadata of the entry
  when it is found, the not-found marker otherwise. It returns the responses, in the
  order of the list, and the last state.
\<close>

fun getEach ::
  "(nat \<Rightarrow> int \<times> int \<times> int) \<Rightarrow> nat \<Rightarrow> string list \<Rightarrow> 'v CacheService
     \<Rightarrow> ('v GetResponse list \<times> 'v CacheService) option" where
  "getEach clk i [] cs = Some ([], cs)"
| "getEach clk i (key # keys) cs =
     (case clk i of (tChk, tAcc, tResp) \<Rightarrow>
        (case Get tChk tAcc key cs of
           None \<Rightarrow> None
         | Some ((entry, found), cs) \<Rightarrow>
             (case (if found then map_option (\<lambda>e. ToResponse tResp (store cs e)) entry
                    else Some (notFoundResponse key)) of
                None \<Rightarrow> None
              | Some r \<Rightarrow>
                  (case getEach clk (Suc i) keys cs of
                     None \<Rightarrow> None
                   | Some (rs, cs) \<Rightarrow> Some (r # rs, cs)))))"

text \<open>The number of \<open>Get\<close>s of a non-empty key that did not find it: each is one miss.\<close>

fun missCount :: "string list \<Rightarrow> bool list \<Rightarrow> nat" where
  "missCount (key # keys) (found # founds) =
     (if \<not> found \<and> key \<noteq> [] then 1 else 0) + missCount keys founds"
| "missCount keys founds = 0"

section \<open>An example state\<close>

text \<open>
  An example state: capacity 2, no default TTL, and two entries, \<open>''b''\<close> without
  expiration at address 2 and \<open>''a''\<close> expiring at second 5 at address 3, \<open>''a''\<close> the more
  recently used. It is the state after \<open>Put(b)\<close> and \<open>Put(a, ttl = 5s)\<close> at time 0 on a new
  service (lemma \<open>exCache_reached\<close>).
\<close>

definition exCache :: "nat CacheService" where
  "exCache = \<lparr>store = (\<lambda>_. zeroEntry)
       (0 := \<lparr>Key = [], Value = None, Expiration = 0, CreatedAt = zeroTime, AccessedAt = zeroTime,
               Prev = None, Next = Some 3\<rparr>,
        1 := \<lparr>Key = [], Value = None, Expiration = 0, CreatedAt = zeroTime, AccessedAt = zeroTime,
               Prev = Some 2, Next = None\<rparr>,
        2 := \<lparr>Key = ''b'', Value = Some 1, Expiration = 0, CreatedAt = 0, AccessedAt = 0,
               Prev = Some 3, Next = Some 1\<rparr>,
        3 := \<lparr>Key = ''a'', Value = Some 2, Expiration = 5, CreatedAt = 0, AccessedAt = 0,
               Prev = Some 0, Next = Some 2\<rparr>),
     fresh = 4, data = fmupd ''a'' 3 (fmupd ''b'' 2 fmempty), head = 0, tail = 1,
     maxSize = 2, defaultTTL = 0, startTime = 0,
     hits = 0, misses = 0, evictions = 0, expiredRemovals = 0\<rparr>"

section \<open>Properties\<close>

subsection \<open>The doubly linked list\<close>

lemma dll_cong:
  "\<forall>x\<in>set (p # as). Next (h' x) = Next (h x) \<Longrightarrow>
   \<forall>x\<in>set (as @ [q]). Prev (h' x) = Prev (h x) \<Longrightarrow> dll h' p as q = dll h p as q"
  by (induction as arbitrary: p) auto

lemma dll_append: "dll h p (xs @ a # ys) q \<longleftrightarrow> dll h p xs a \<and> dll h a ys q"
  by (induction xs arbitrary: p) auto

lemma dll_last: "dll h p as q \<Longrightarrow> Next (h (last (p # as))) = Some q \<and> Prev (h q) = Some (last (p # as))"
  by (induction as arbitrary: p) auto

lemma dll_first: "dll h p as q \<Longrightarrow> Next (h p) = Some (hd (as @ [q]))"
  by (cases as) auto

lemma dll_retarget:
  "dll h p xs e \<Longrightarrow> distinct (p # xs) \<Longrightarrow> q \<notin> set (p # xs) \<Longrightarrow>
   dll ((h(last (p # xs) := (h (last (p # xs)))\<lparr>Next := Some q\<rparr>))
          (q := ((h(last (p # xs) := (h (last (p # xs)))\<lparr>Next := Some q\<rparr>)) q)\<lparr>Prev := Some (last (p # xs))\<rparr>)) p xs q"
proof (induction xs arbitrary: p)
  case Nil
  then show ?case by simp
next
  case (Cons x xs)
  from Cons.prems have d: "dll h x xs e" "distinct (x # xs)" "q \<notin> set (x # xs)" by auto
  have l: "last (p # x # xs) = last (x # xs)" by simp
  have pl: "p \<noteq> last (x # xs)" using Cons.prems(2) last_in_set[of "x # xs"] by auto
  show ?case using Cons.IH[OF d] Cons.prems pl unfolding l by auto
qed

lemma links_only_refl: "links_only h h"
  by (simp add: links_only_def)

lemma links_only_trans: "links_only h h' \<Longrightarrow> links_only h' h'' \<Longrightarrow> links_only h h''"
  unfolding links_only_def
proof (intro allI)
  fix a assume 1: "\<forall>a. h' a = (h a)\<lparr>Prev := Prev (h' a), Next := Next (h' a)\<rparr>"
    and 2: "\<forall>a. h'' a = (h' a)\<lparr>Prev := Prev (h'' a), Next := Next (h'' a)\<rparr>"
  have "h'' a = (h' a)\<lparr>Prev := Prev (h'' a), Next := Next (h'' a)\<rparr>" using 2 by blast
  also have "h' a = (h a)\<lparr>Prev := Prev (h' a), Next := Next (h' a)\<rparr>" using 1 by blast
  finally show "h'' a = (h a)\<lparr>Prev := Prev (h'' a), Next := Next (h'' a)\<rparr>" by simp
qed

lemma links_only_fields:
  assumes "links_only h h'"
  shows "Key (h' a) = Key (h a)" "Value (h' a) = Value (h a)" "Expiration (h' a) = Expiration (h a)"
    "CreatedAt (h' a) = CreatedAt (h a)" "AccessedAt (h' a) = AccessedAt (h a)"
proof -
  have e: "h' a = (h a)\<lparr>Prev := Prev (h' a), Next := Next (h' a)\<rparr>"
    using assms by (simp add: links_only_def)
  show "Key (h' a) = Key (h a)" by (subst e) simp
  show "Value (h' a) = Value (h a)" by (subst e) simp
  show "Expiration (h' a) = Expiration (h a)" by (subst e) simp
  show "CreatedAt (h' a) = CreatedAt (h a)" by (subst e) simp
  show "AccessedAt (h' a) = AccessedAt (h a)" by (subst e) simp
qed

lemma removeFromList_dll:
  assumes d: "dll (store cs) (head cs) (xs @ e # ys) (tail cs)"
    and dist: "distinct (head cs # tail cs # xs @ e # ys)"
  shows "\<exists>h'. removeFromList e cs = Some (cs\<lparr>store := h'\<rparr>) \<and>
           dll h' (head cs) (xs @ ys) (tail cs) \<and> links_only (store cs) h'"
proof -
  let ?h = "store cs"
  let ?P = "last (head cs # xs)"
  let ?N = "hd (ys @ [tail cs])"
  from d have d1: "dll ?h (head cs) xs e" and d2: "dll ?h e ys (tail cs)"
    by (simp_all add: dll_append)
  have pe: "Prev (?h e) = Some ?P" using dll_last[OF d1] by simp
  have ne: "Next (?h e) = Some ?N" using dll_first[OF d2] by simp
  have Pin: "?P \<in> set (head cs # xs)" using last_in_set[of "head cs # xs"] by simp
  have Nin: "?N \<in> set (ys @ [tail cs])" using hd_in_set[of "ys @ [tail cs]"] by simp
  have Pe: "?P \<noteq> e" using Pin dist by auto
  have PN: "?P \<noteq> ?N" using Pin Nin dist by auto
  have Nnot: "?N \<notin> set (head cs # xs)" using Nin dist by auto
  let ?h1 = "?h(?P := (?h ?P)\<lparr>Next := Some ?N\<rparr>)"
  let ?h' = "?h1(?N := (?h1 ?N)\<lparr>Prev := Some ?P\<rparr>)"
  have r: "removeFromList e cs = Some (cs\<lparr>store := ?h'\<rparr>)"
    using pe ne Pe by (simp add: removeFromList_def upd_def)
  have dx: "distinct (head cs # xs)" using dist by auto
  have c1: "dll ?h' (head cs) xs ?N" using dll_retarget[OF d1 dx Nnot] .
  have c: "dll ?h' (head cs) (xs @ ys) (tail cs)"
  proof (cases ys)
    case Nil
    then show ?thesis using c1 by simp
  next
    case (Cons n ys')
    then have dn: "dll ?h n ys' (tail cs)" using d2 by simp
    have N: "?N = n" using Cons by simp
    have "dll ?h' n ys' (tail cs) = dll ?h n ys' (tail cs)"
    proof (rule dll_cong)
      show "\<forall>x\<in>set (n # ys'). Next (?h' x) = Next (?h x)"
        using Pin dist Cons by auto
      show "\<forall>x\<in>set (ys' @ [tail cs]). Prev (?h' x) = Prev (?h x)"
        using N dist Cons by auto
    qed
    with dn c1 N Cons show ?thesis by (simp add: dll_append)
  qed
  have l: "links_only ?h ?h'" using PN by (simp add: links_only_def)
  from r c l show ?thesis by blast
qed

lemma addToHead_dll:
  assumes d: "dll (store cs) (head cs) as (tail cs)"
    and dist: "distinct (head cs # tail cs # as)"
    and fr: "e \<notin> set (head cs # tail cs # as)"
  shows "\<exists>h'. addToHead e cs = Some (cs\<lparr>store := h'\<rparr>) \<and>
           dll h' (head cs) (e # as) (tail cs) \<and> links_only (store cs) h'"
proof -
  let ?h = "store cs"
  let ?N = "hd (as @ [tail cs])"
  have nh: "Next (?h (head cs)) = Some ?N" using dll_first[OF d] .
  have Nin: "?N \<in> set (as @ [tail cs])" using hd_in_set[of "as @ [tail cs]"] by simp
  have eh: "e \<noteq> head cs" and eN: "e \<noteq> ?N" and Nh: "?N \<noteq> head cs"
    using fr Nin dist by auto
  let ?h1 = "?h(e := (?h e)\<lparr>Prev := Some (head cs)\<rparr>)"
  let ?h2 = "?h1(e := (?h1 e)\<lparr>Next := Some ?N\<rparr>)"
  let ?h3 = "?h2(?N := (?h2 ?N)\<lparr>Prev := Some e\<rparr>)"
  let ?h' = "?h3(head cs := (?h3 (head cs))\<lparr>Next := Some e\<rparr>)"
  have r: "addToHead e cs = Some (cs\<lparr>store := ?h'\<rparr>)"
    using nh eh by (simp add: addToHead_def upd_def)
  have c: "dll ?h' e as (tail cs)"
  proof (cases as)
    case Nil
    then show ?thesis using eh eN Nh by simp
  next
    case (Cons n as')
    then have dn: "dll ?h n as' (tail cs)" using d by simp
    have N: "?N = n" using Cons by simp
    have "dll ?h' n as' (tail cs) = dll ?h n as' (tail cs)"
    proof (rule dll_cong)
      show "\<forall>x\<in>set (n # as'). Next (?h' x) = Next (?h x)"
        using fr dist Cons by auto
      show "\<forall>x\<in>set (as' @ [tail cs]). Prev (?h' x) = Prev (?h x)"
        using fr dist Cons by auto
    qed
    with dn N Cons eh eN Nh show ?thesis by simp
  qed
  have c': "dll ?h' (head cs) (e # as) (tail cs)" using c eh eN Nh by simp
  have l: "links_only ?h ?h'" using eh eN Nh by (auto simp add: links_only_def)
  from r c' l show ?thesis by blast
qed

subsection \<open>The invariant and the list operations\<close>

lemma keysOf_links: "links_only h h' \<Longrightarrow> keysOf h' as = keysOf h as"
  by (simp add: keysOf_def links_only_fields)

lemma inv_lookup:
  assumes "cache_inv cs as" "fmlookup (data cs) k = Some e"
  shows "e \<in> set as \<and> Key (store cs e) = k"
proof -
  have "k |\<in>| fmdom (data cs)" using assms(2) by (simp add: fmdomI)
  then have "k \<in> set (keysOf (store cs) as)"
    using assms(1) by (simp add: cache_inv_def fset_of_list.rep_eq)
  then obtain a where a: "a \<in> set as" "Key (store cs a) = k" by (auto simp: keysOf_def)
  then have "fmlookup (data cs) k = Some a" using assms(1) by (auto simp: cache_inv_def)
  with assms(2) a show ?thesis by simp
qed

lemma inv_lookup_None:
  assumes "cache_inv cs as" "fmlookup (data cs) k = None"
  shows "k \<notin> set (keysOf (store cs) as)"
proof -
  have "k |\<notin>| fmdom (data cs)" using assms(2) by (simp add: fmdom_notI)
  then show ?thesis using assms(1) by (simp add: cache_inv_def fset_of_list.rep_eq)
qed

lemma inv_len: "cache_inv cs as \<Longrightarrow> len (data cs) = int (length as)"
proof -
  assume i: "cache_inv cs as"
  then have "fcard (fmdom (data cs)) = card (set (keysOf (store cs) as))"
    by (simp add: cache_inv_def fcard.rep_eq fset_of_list.rep_eq)
  also have "\<dots> = length (keysOf (store cs) as)" using i by (simp add: cache_inv_def distinct_card)
  finally show ?thesis by (simp add: len_def keysOf_def)
qed

lemma cache_inv_upd:
  assumes k: "\<And>x. Key (f x) = Key x" and p: "\<And>x. Prev (f x) = Prev x" and n: "\<And>x. Next (f x) = Next x"
  shows "cache_inv (upd a f cs) as = cache_inv cs as"
proof -
  have d: "dll (store (upd a f cs)) (head cs) as (tail cs) = dll (store cs) (head cs) as (tail cs)"
    by (rule dll_cong) (auto simp: upd_def p n)
  have ks: "keysOf (store (upd a f cs)) as = keysOf (store cs) as"
    by (auto simp: keysOf_def upd_def k)
  have kk: "\<And>b. Key (store (upd a f cs) b) = Key (store cs b)" by (simp add: upd_def k)
  have fs: "head (upd a f cs) = head cs" "tail (upd a f cs) = tail cs" "data (upd a f cs) = data cs"
    "fresh (upd a f cs) = fresh cs"
    by (simp_all add: upd_def)
  show ?thesis unfolding cache_inv_def fs d ks kk ..
qed

lemma removeEntry_inv:
  assumes i: "cache_inv cs as" and e: "e \<in> set as"
  shows "\<exists>h'. removeEntry e cs = Some (cs\<lparr>data := fmdrop (Key (store cs e)) (data cs), store := h'\<rparr>) \<and>
           links_only (store cs) h' \<and>
           cache_inv (cs\<lparr>data := fmdrop (Key (store cs e)) (data cs), store := h'\<rparr>) (remove1 e as)"
proof -
  from e obtain xs ys where as: "as = xs @ e # ys" by (auto dest: split_list)
  have dist: "distinct (head cs # tail cs # xs @ e # ys)" using i as by (simp add: cache_inv_def)
  then have r1: "remove1 e as = xs @ ys" using as by (simp add: remove1_append)
  let ?cs0 = "cs\<lparr>data := fmdrop (Key (store cs e)) (data cs)\<rparr>"
  have "dll (store ?cs0) (head ?cs0) (xs @ e # ys) (tail ?cs0)"
    using i as by (simp add: cache_inv_def)
  moreover have "distinct (head ?cs0 # tail ?cs0 # xs @ e # ys)" using dist by simp
  ultimately obtain h' where h': "removeFromList e ?cs0 = Some (?cs0\<lparr>store := h'\<rparr>)"
    "dll h' (head cs) (xs @ ys) (tail cs)" "links_only (store cs) h'"
    using removeFromList_dll[of ?cs0 xs e ys] by auto
  let ?cs' = "cs\<lparr>data := fmdrop (Key (store cs e)) (data cs), store := h'\<rparr>"
  have re: "removeEntry e cs = Some ?cs'" using h'(1) by (simp add: removeEntry_def)
  have ks: "keysOf h' (xs @ ys) = keysOf (store cs) (xs @ ys)" using h'(3) by (rule keysOf_links)
  have dk: "distinct (keysOf (store cs) (xs @ e # ys))" using i as by (simp add: cache_inv_def)
  have knot: "Key (store cs e) \<notin> set (keysOf (store cs) (xs @ ys))"
    using dk by (auto simp: keysOf_def)
  have "cache_inv ?cs' (xs @ ys)"
    unfolding cache_inv_def
  proof (intro conjI)
    show "dll (store ?cs') (head ?cs') (xs @ ys) (tail ?cs')" using h'(2) by simp
    show "distinct (head ?cs' # tail ?cs' # xs @ ys)" using dist by auto
    show "\<forall>a\<in>set (head ?cs' # tail ?cs' # xs @ ys). a < fresh ?cs'"
      using i as by (auto simp: cache_inv_def)
    have "distinct (keysOf (store cs) (xs @ ys))" using dk by (auto simp: keysOf_def)
    then show "distinct (keysOf (store ?cs') (xs @ ys))" using ks by simp
    have "[] \<notin> set (keysOf (store cs) (xs @ e # ys))" using i as by (simp add: cache_inv_def)
    then have "[] \<notin> set (keysOf (store cs) (xs @ ys))" by (auto simp: keysOf_def)
    then show "[] \<notin> set (keysOf (store ?cs') (xs @ ys))" using ks by simp
    have "fmdom (data cs) = fset_of_list (keysOf (store cs) (xs @ e # ys))"
      using i as by (simp add: cache_inv_def)
    then have "fmdom (data ?cs') = fset_of_list (keysOf (store cs) (xs @ ys))"
      using knot by (auto simp: keysOf_def fset_of_list.rep_eq)
    then show "fmdom (data ?cs') = fset_of_list (keysOf (store ?cs') (xs @ ys))"
      using ks by simp
    show "\<forall>a\<in>set (xs @ ys). fmlookup (data ?cs') (Key (store ?cs' a)) = Some a"
    proof
      fix a assume a: "a \<in> set (xs @ ys)"
      then have "Key (store cs a) \<in> set (keysOf (store cs) (xs @ ys))" by (auto simp: keysOf_def)
      with knot have "Key (store cs a) \<noteq> Key (store cs e)" by metis
      moreover have "fmlookup (data cs) (Key (store cs a)) = Some a"
        using i as a by (auto simp: cache_inv_def)
      ultimately show "fmlookup (data ?cs') (Key (store ?cs' a)) = Some a"
        using links_only_fields(1)[OF h'(3)] by simp
    qed
  qed
  with re h'(3) r1 show ?thesis by auto
qed

lemma cache_inv_relink:
  assumes i: "cache_inv cs as" and l: "links_only (store cs) h'"
    and d: "dll h' (head cs) bs (tail cs)" and s: "set bs = set as" and db: "distinct bs"
  shows "cache_inv (cs\<lparr>store := h'\<rparr>) bs"
proof -
  let ?f = "\<lambda>a. Key (store cs a)"
  have da: "distinct as" and dk: "distinct (map ?f as)"
    using i by (auto simp: cache_inv_def keysOf_def)
  have inj: "inj_on ?f (set as)" using dk da by (simp add: distinct_map)
  have kb: "keysOf h' bs = map ?f bs" using l by (simp add: keysOf_def links_only_fields)
  have dkb: "distinct (map ?f bs)" using inj db s by (simp add: distinct_map)
  have sk: "set (map ?f bs) = set (map ?f as)" using s by simp
  show ?thesis unfolding cache_inv_def
  proof (intro conjI)
    show "dll (store (cs\<lparr>store := h'\<rparr>)) (head (cs\<lparr>store := h'\<rparr>)) bs (tail (cs\<lparr>store := h'\<rparr>))"
      using d by simp
    show "distinct (head (cs\<lparr>store := h'\<rparr>) # tail (cs\<lparr>store := h'\<rparr>) # bs)"
      using i s db by (auto simp: cache_inv_def)
    show "\<forall>a\<in>set (head (cs\<lparr>store := h'\<rparr>) # tail (cs\<lparr>store := h'\<rparr>) # bs). a < fresh (cs\<lparr>store := h'\<rparr>)"
      using i s by (auto simp: cache_inv_def)
    show "distinct (keysOf (store (cs\<lparr>store := h'\<rparr>)) bs)" using kb dkb by simp
    have "[] \<notin> set (map ?f as)" using i by (simp add: cache_inv_def keysOf_def)
    then show "[] \<notin> set (keysOf (store (cs\<lparr>store := h'\<rparr>)) bs)" using kb sk by simp
    have "fmdom (data cs) = fset_of_list (map ?f as)" using i by (simp add: cache_inv_def keysOf_def)
    also have "\<dots> = fset_of_list (map ?f bs)" using sk by (metis fset_of_list.rep_eq fset_inverse)
    finally show "fmdom (data (cs\<lparr>store := h'\<rparr>)) = fset_of_list (keysOf (store (cs\<lparr>store := h'\<rparr>)) bs)"
      using kb by simp
    show "\<forall>a\<in>set bs. fmlookup (data (cs\<lparr>store := h'\<rparr>)) (Key (store (cs\<lparr>store := h'\<rparr>) a)) = Some a"
      using i s links_only_fields(1)[OF l] by (auto simp: cache_inv_def)
  qed
qed

lemma moveToHead_inv:
  assumes i: "cache_inv cs as" and e: "e \<in> set as"
  shows "\<exists>h'. moveToHead e cs = Some (cs\<lparr>store := h'\<rparr>) \<and> links_only (store cs) h' \<and>
           cache_inv (cs\<lparr>store := h'\<rparr>) (e # remove1 e as)"
proof -
  from e obtain xs ys where as: "as = xs @ e # ys" by (auto dest: split_list)
  have dist: "distinct (head cs # tail cs # xs @ e # ys)" using i as by (simp add: cache_inv_def)
  then have r1: "remove1 e as = xs @ ys" using as by (simp add: remove1_append)
  have "dll (store cs) (head cs) (xs @ e # ys) (tail cs)" using i as by (simp add: cache_inv_def)
  from removeFromList_dll[OF this dist] obtain h1 where h1:
    "removeFromList e cs = Some (cs\<lparr>store := h1\<rparr>)" "dll h1 (head cs) (xs @ ys) (tail cs)"
    "links_only (store cs) h1" by blast
  let ?c1 = "cs\<lparr>store := h1\<rparr>"
  have a1: "dll (store ?c1) (head ?c1) (xs @ ys) (tail ?c1)" using h1(2) by simp
  have a2: "distinct (head ?c1 # tail ?c1 # xs @ ys)" using dist by auto
  have a3: "e \<notin> set (head ?c1 # tail ?c1 # xs @ ys)" using dist by auto
  from addToHead_dll[OF a1 a2 a3] obtain h2 where h2:
    "addToHead e ?c1 = Some (?c1\<lparr>store := h2\<rparr>)" "dll h2 (head cs) (e # xs @ ys) (tail cs)"
    "links_only h1 h2" by auto
  have m: "moveToHead e cs = Some (cs\<lparr>store := h2\<rparr>)"
    using h1(1) h2(1) by (simp add: moveToHead_def)
  have l: "links_only (store cs) h2" using h1(3) h2(3) by (rule links_only_trans)
  have "cache_inv (cs\<lparr>store := h2\<rparr>) (e # xs @ ys)"
    using cache_inv_relink[OF i l h2(2)] as dist by auto
  with m l r1 show ?thesis by auto
qed

lemma addToHead_inv:
  assumes i: "cache_inv cs as" and fr: "e \<notin> set (head cs # tail cs # as)" and lt: "e < fresh cs"
    and k: "Key (store cs e) \<notin> set (keysOf (store cs) as)" and kne: "Key (store cs e) \<noteq> []"
  shows "\<exists>h'. addToHead e (cs\<lparr>data := fmupd (Key (store cs e)) e (data cs)\<rparr>)
             = Some (cs\<lparr>data := fmupd (Key (store cs e)) e (data cs), store := h'\<rparr>) \<and>
           links_only (store cs) h' \<and>
           cache_inv (cs\<lparr>data := fmupd (Key (store cs e)) e (data cs), store := h'\<rparr>) (e # as)"
proof -
  let ?c0 = "cs\<lparr>data := fmupd (Key (store cs e)) e (data cs)\<rparr>"
  have a1: "dll (store ?c0) (head ?c0) as (tail ?c0)" using i by (simp add: cache_inv_def)
  have a2: "distinct (head ?c0 # tail ?c0 # as)" using i by (simp add: cache_inv_def)
  have a3: "e \<notin> set (head ?c0 # tail ?c0 # as)" using fr by simp
  from addToHead_dll[OF a1 a2 a3] obtain h' where h':
    "addToHead e ?c0 = Some (?c0\<lparr>store := h'\<rparr>)" "dll h' (head cs) (e # as) (tail cs)"
    "links_only (store cs) h'" by auto
  let ?c' = "cs\<lparr>data := fmupd (Key (store cs e)) e (data cs), store := h'\<rparr>"
  have ks: "keysOf h' (e # as) = Key (store cs e) # keysOf (store cs) as"
    using keysOf_links[OF h'(3), of "e # as"] by (simp add: keysOf_def)
  have "cache_inv ?c' (e # as)" unfolding cache_inv_def
  proof (intro conjI)
    show "dll (store ?c') (head ?c') (e # as) (tail ?c')" using h'(2) by simp
    show "distinct (head ?c' # tail ?c' # e # as)" using a2 fr by auto
    show "\<forall>a\<in>set (head ?c' # tail ?c' # e # as). a < fresh ?c'"
      using i lt by (auto simp: cache_inv_def)
    show "distinct (keysOf (store ?c') (e # as))" using ks k i by (simp add: cache_inv_def)
    show "[] \<notin> set (keysOf (store ?c') (e # as))" using ks kne i by (simp add: cache_inv_def)
    have "fmdom (data cs) = fset_of_list (keysOf (store cs) as)" using i by (simp add: cache_inv_def)
    then show "fmdom (data ?c') = fset_of_list (keysOf (store ?c') (e # as))" using ks by simp
    show "\<forall>a\<in>set (e # as). fmlookup (data ?c') (Key (store ?c' a)) = Some a"
    proof
      fix a assume a: "a \<in> set (e # as)"
      show "fmlookup (data ?c') (Key (store ?c' a)) = Some a"
      proof (cases "a = e")
        case True
        then show ?thesis using links_only_fields(1)[OF h'(3)] by simp
      next
        case False
        then have ain: "a \<in> set as" using a by simp
        then have "Key (store cs a) \<in> set (keysOf (store cs) as)" by (simp add: keysOf_def)
        with k have "Key (store cs a) \<noteq> Key (store cs e)" by metis
        moreover have "fmlookup (data cs) (Key (store cs a)) = Some a"
          using i ain by (simp add: cache_inv_def)
        ultimately show ?thesis using links_only_fields(1)[OF h'(3)] by simp
      qed
    qed
  qed
  with h'(1,3) show ?thesis by auto
qed

lemma evictLRU_empty: "cache_inv cs [] \<Longrightarrow> evictLRU cs = Some cs"
  by (simp add: cache_inv_def evictLRU_def)

lemma evictLRU_inv:
  assumes i: "cache_inv cs as" and ne: "as \<noteq> []"
  shows "\<exists>h'. evictLRU cs = Some (cs\<lparr>data := fmdrop (Key (store cs (last as))) (data cs),
                                         store := h', evictions := evictions cs + 1\<rparr>) \<and>
           links_only (store cs) h' \<and>
           cache_inv (cs\<lparr>data := fmdrop (Key (store cs (last as))) (data cs),
                          store := h', evictions := evictions cs + 1\<rparr>) (butlast as)"
proof -
  have d: "dll (store cs) (head cs) as (tail cs)" using i by (simp add: cache_inv_def)
  have p: "Prev (store cs (tail cs)) = Some (last as)" using dll_last[OF d] ne by simp
  have lin: "last as \<in> set as" using ne by simp
  then have lh: "last as \<noteq> head cs" using i by (auto simp: cache_inv_def)
  from removeEntry_inv[OF i lin] obtain h' where h':
    "removeEntry (last as) cs = Some (cs\<lparr>data := fmdrop (Key (store cs (last as))) (data cs), store := h'\<rparr>)"
    "links_only (store cs) h'"
    "cache_inv (cs\<lparr>data := fmdrop (Key (store cs (last as))) (data cs), store := h'\<rparr>) (remove1 (last as) as)"
    by blast
  have da: "distinct as" using i by (simp add: cache_inv_def)
  have "distinct (butlast as @ [last as])" using da ne by simp
  then have "last as \<notin> set (butlast as)" by simp
  then have "remove1 (last as) (butlast as @ [last as]) = butlast as"
    by (simp add: remove1_append)
  then have rb: "remove1 (last as) as = butlast as" using ne by simp
  have ev: "evictLRU cs = Some (cs\<lparr>data := fmdrop (Key (store cs (last as))) (data cs),
                                         store := h', evictions := evictions cs + 1\<rparr>)"
    using p lh h'(1) by (simp add: evictLRU_def)
  have "cache_inv (cs\<lparr>data := fmdrop (Key (store cs (last as))) (data cs),
                          store := h', evictions := evictions cs + 1\<rparr>) (butlast as)"
    using h'(3) rb by (simp add: cache_inv_def)
  with ev h'(2) show ?thesis by blast
qed

subsection \<open>The public operations on a well-formed state\<close>

lemma Put_existing:
  assumes i: "cache_inv cs as" and kne: "key \<noteq> []" and l: "fmlookup (data cs) key = Some e"
  shows "\<exists>h'. Put tExp now key val ttl cs = Some (None, cs\<lparr>store := h'\<rparr>) \<and>
           links_only ((store cs)(e := (store cs e)\<lparr>Value := val,
              Expiration := putExpiration tExp ttl cs, AccessedAt := now\<rparr>)) h' \<and>
           cache_inv (cs\<lparr>store := h'\<rparr>) (e # remove1 e as)"
proof -
  let ?x = "putExpiration tExp ttl cs"
  let ?c3 = "upd e (\<lambda>e. e\<lparr>AccessedAt := now\<rparr>) (upd e (\<lambda>e. e\<lparr>Expiration := ?x\<rparr>)
               (upd e (\<lambda>e. e\<lparr>Value := val\<rparr>) cs))"
  have ein: "e \<in> set as" using inv_lookup[OF i l] by simp
  have i3: "cache_inv ?c3 as" using i by (simp add: cache_inv_upd)
  from moveToHead_inv[OF i3 ein] obtain h' where h':
    "moveToHead e ?c3 = Some (?c3\<lparr>store := h'\<rparr>)" "links_only (store ?c3) h'"
    "cache_inv (?c3\<lparr>store := h'\<rparr>) (e # remove1 e as)" by blast
  have eq: "?c3\<lparr>store := h'\<rparr> = cs\<lparr>store := h'\<rparr>" by (simp add: upd_def)
  have st: "store ?c3 = (store cs)(e := (store cs e)\<lparr>Value := val,
              Expiration := ?x, AccessedAt := now\<rparr>)" by (simp add: upd_def)
  have "Put tExp now key val ttl cs = Some (None, cs\<lparr>store := h'\<rparr>)"
    using kne l h'(1) eq by (simp add: Put_def Let_def putExpiration_def)
  with h'(2,3) eq st show ?thesis by auto
qed

lemma fresh_entry_inv:
  assumes i: "cache_inv cs as"
  shows "cache_inv (cs\<lparr>store := (store cs)(fresh cs := ent), fresh := Suc (fresh cs)\<rparr>) as"
proof -
  have nf: "fresh cs \<notin> set (head cs # tail cs # as)" using i by (auto simp: cache_inv_def)
  let ?h = "(store cs)(fresh cs := ent)"
  have d: "dll ?h (head cs) as (tail cs) = dll (store cs) (head cs) as (tail cs)"
    by (rule dll_cong) (use nf in auto)
  have ks: "keysOf ?h as = keysOf (store cs) as" using nf by (auto simp: keysOf_def)
  have kk: "\<forall>a\<in>set as. Key (?h a) = Key (store cs a)" using nf by auto
  show ?thesis using i d ks kk by (auto simp: cache_inv_def less_Suc_eq)
qed

lemma Put_new:
  assumes i: "cache_inv cs as" and kne: "key \<noteq> []" and l: "fmlookup (data cs) key = None"
  shows "\<exists>h'. links_only ((store cs)(fresh cs := \<lparr>Key = key, Value = val,
                  Expiration = putExpiration tExp ttl cs, CreatedAt = now, AccessedAt = now,
                  Prev = None, Next = None\<rparr>)) h' \<and>
           (if len (data cs) \<ge> maxSize cs \<and> as \<noteq> [] then
              Put tExp now key val ttl cs = Some (None,
                cs\<lparr>store := h', fresh := Suc (fresh cs),
                   data := fmupd key (fresh cs) (fmdrop (Key (store cs (last as))) (data cs)),
                   evictions := evictions cs + 1\<rparr>) \<and>
              cache_inv (cs\<lparr>store := h', fresh := Suc (fresh cs),
                   data := fmupd key (fresh cs) (fmdrop (Key (store cs (last as))) (data cs)),
                   evictions := evictions cs + 1\<rparr>) (fresh cs # butlast as)
            else
              Put tExp now key val ttl cs = Some (None,
                cs\<lparr>store := h', fresh := Suc (fresh cs), data := fmupd key (fresh cs) (data cs)\<rparr>) \<and>
              cache_inv (cs\<lparr>store := h', fresh := Suc (fresh cs),
                   data := fmupd key (fresh cs) (data cs)\<rparr>) (fresh cs # as))"
proof -
  let ?x = "putExpiration tExp ttl cs"
  let ?ent = "\<lparr>Key = key, Value = val, Expiration = ?x, CreatedAt = now, AccessedAt = now,
                  Prev = None, Next = None\<rparr> :: 'a CacheEntry"
  let ?e = "fresh cs"
  let ?c1 = "cs\<lparr>store := (store cs)(?e := ?ent), fresh := Suc ?e\<rparr>"
  have i1: "cache_inv ?c1 as" using fresh_entry_inv[OF i] .
  have nf: "?e \<notin> set (head cs # tail cs # as)" using i by (auto simp: cache_inv_def)
  have knot: "key \<notin> set (keysOf (store cs) as)" using inv_lookup_None[OF i l] .
  have ks1: "keysOf (store ?c1) as = keysOf (store cs) as" using nf by (auto simp: keysOf_def)
  have len1: "len (data ?c1) = len (data cs)" by simp
  have P: "Put tExp now key val ttl cs =
      (case (if len (data cs) \<ge> maxSize cs then evictLRU ?c1 else Some ?c1) of
         None \<Rightarrow> None
       | Some c2 \<Rightarrow> (case addToHead ?e (c2\<lparr>data := fmupd key ?e (data c2)\<rparr>) of
            None \<Rightarrow> None | Some c4 \<Rightarrow> Some (None, c4)))"
    using kne l by (simp add: Put_def Let_def putExpiration_def split: option.splits)
  have k1: "Key (store ?c1 ?e) = key" by simp
  show ?thesis
  proof (cases "len (data cs) \<ge> maxSize cs \<and> as \<noteq> []")
    case True
    then have ne: "as \<noteq> []" and ge: "len (data cs) \<ge> maxSize cs" by auto
    from evictLRU_inv[OF i1 ne] obtain h2 where h2:
      "evictLRU ?c1 = Some (?c1\<lparr>data := fmdrop (Key (store ?c1 (last as))) (data ?c1),
                                         store := h2, evictions := evictions ?c1 + 1\<rparr>)"
      "links_only (store ?c1) h2"
      "cache_inv (?c1\<lparr>data := fmdrop (Key (store ?c1 (last as))) (data ?c1),
                          store := h2, evictions := evictions ?c1 + 1\<rparr>) (butlast as)" by blast
    let ?c2 = "?c1\<lparr>data := fmdrop (Key (store ?c1 (last as))) (data ?c1),
                          store := h2, evictions := evictions ?c1 + 1\<rparr>"
    have "last as \<in> set as" using ne by simp
    then have "last as \<noteq> ?e" using nf by auto
    then have lk: "Key (store ?c1 (last as)) = Key (store cs (last as))" by simp
    have k2: "Key (store ?c2 ?e) = key" using links_only_fields(1)[OF h2(2), of ?e] by simp
    have sub: "set (butlast as) \<subseteq> set as" by (auto dest: in_set_butlastD)
    have b1: "?e \<notin> set (head ?c2 # tail ?c2 # butlast as)" using nf sub by auto
    have b2: "?e < fresh ?c2" by simp
    have "keysOf (store ?c2) (butlast as) = keysOf (store cs) (butlast as)"
      using keysOf_links[OF h2(2), of "butlast as"] nf sub by (auto simp: keysOf_def)
    then have b3: "Key (store ?c2 ?e) \<notin> set (keysOf (store ?c2) (butlast as))"
      using knot k2 sub by (auto simp: keysOf_def)
    have b4: "Key (store ?c2 ?e) \<noteq> []" using k2 kne by simp
    from addToHead_inv[OF h2(3) b1 b2 b3 b4] obtain h' where h':
      "addToHead ?e (?c2\<lparr>data := fmupd (Key (store ?c2 ?e)) ?e (data ?c2)\<rparr>)
         = Some (?c2\<lparr>data := fmupd (Key (store ?c2 ?e)) ?e (data ?c2), store := h'\<rparr>)"
      "links_only (store ?c2) h'"
      "cache_inv (?c2\<lparr>data := fmupd (Key (store ?c2 ?e)) ?e (data ?c2), store := h'\<rparr>) (?e # butlast as)"
      by blast
    let ?r = "cs\<lparr>store := h', fresh := Suc (fresh cs),
                   data := fmupd key (fresh cs) (fmdrop (Key (store cs (last as))) (data cs)),
                   evictions := evictions cs + 1\<rparr>"
    have req: "?c2\<lparr>data := fmupd (Key (store ?c2 ?e)) ?e (data ?c2), store := h'\<rparr> = ?r"
      using k2 lk by (intro CacheService.equality) simp_all
    have a: "addToHead ?e (?c2\<lparr>data := fmupd key ?e (data ?c2)\<rparr>) = Some ?r"
      using h'(1) k2 req by simp
    have "Put tExp now key val ttl cs = Some (None, ?r)"
      unfolding P using ge h2(1) a by simp
    moreover have "cache_inv ?r (?e # butlast as)" using h'(3) unfolding req .
    moreover have "links_only (store ?c1) h'"
      using links_only_trans[OF h2(2)] h'(2) by simp
    ultimately show ?thesis using True by (intro exI[of _ h']) simp
  next
    case False
    have c2: "(if len (data cs) \<ge> maxSize cs then evictLRU ?c1 else Some ?c1) = Some ?c1"
    proof (cases "len (data cs) \<ge> maxSize cs")
      case True
      with False have "as = []" by simp
      then show ?thesis using evictLRU_empty[of ?c1] i1 by simp
    next
      case False
      then show ?thesis by simp
    qed
    have b1: "?e \<notin> set (head ?c1 # tail ?c1 # as)" using nf by simp
    have b2: "?e < fresh ?c1" by simp
    have b3: "Key (store ?c1 ?e) \<notin> set (keysOf (store ?c1) as)" using knot ks1 by simp
    have b4: "Key (store ?c1 ?e) \<noteq> []" using kne by simp
    from addToHead_inv[OF i1 b1 b2 b3 b4] obtain h' where h':
      "addToHead ?e (?c1\<lparr>data := fmupd (Key (store ?c1 ?e)) ?e (data ?c1)\<rparr>)
         = Some (?c1\<lparr>data := fmupd (Key (store ?c1 ?e)) ?e (data ?c1), store := h'\<rparr>)"
      "links_only (store ?c1) h'"
      "cache_inv (?c1\<lparr>data := fmupd (Key (store ?c1 ?e)) ?e (data ?c1), store := h'\<rparr>) (?e # as)"
      by blast
    let ?r = "cs\<lparr>store := h', fresh := Suc (fresh cs), data := fmupd key (fresh cs) (data cs)\<rparr>"
    have req: "?c1\<lparr>data := fmupd (Key (store ?c1 ?e)) ?e (data ?c1), store := h'\<rparr> = ?r"
      by (intro CacheService.equality) simp_all
    have a: "addToHead ?e (?c1\<lparr>data := fmupd key ?e (data ?c1)\<rparr>) = Some ?r"
      using h'(1) req by simp
    have f1: "Put tExp now key val ttl cs = Some (None, ?r)"
      unfolding P c2 using a by simp
    have f2: "cache_inv ?r (?e # as)" using h'(3) unfolding req .
    have f3: "links_only ((store cs)(?e := ?ent)) h'" using h'(2) by simp
    show ?thesis
      by (rule exI[of _ h'], subst if_not_P[OF False]) (use f1 f2 f3 in blast)
  qed
qed

lemma remove1_by_key:
  assumes i: "cache_inv cs as" and e: "e \<in> set as"
  shows "remove1 e as = filter (\<lambda>a. Key (store cs a) \<noteq> Key (store cs e)) as"
proof -
  have da: "distinct as" and dk: "distinct (map (\<lambda>a. Key (store cs a)) as)"
    using i by (auto simp: cache_inv_def keysOf_def)
  have inj: "inj_on (\<lambda>a. Key (store cs a)) (set as)" using dk da by (simp add: distinct_map)
  have "remove1 e as = filter (\<lambda>a. a \<noteq> e) as"
    using da by (simp add: distinct_remove1_removeAll removeAll_filter_not_eq) metis
  also have "\<dots> = filter (\<lambda>a. Key (store cs a) \<noteq> Key (store cs e)) as"
    by (rule filter_cong) (use inj e in \<open>auto dest: inj_onD\<close>)
  finally show ?thesis .
qed

lemma inv_key_nonempty:
  assumes i: "cache_inv cs as" and l: "fmlookup (data cs) k = Some e"
  shows "k \<noteq> []"
proof -
  have "e \<in> set as" "Key (store cs e) = k" using inv_lookup[OF i l] by simp_all
  then have "k \<in> set (keysOf (store cs) as)" by (auto simp: keysOf_def)
  moreover have "[] \<notin> set (keysOf (store cs) as)" using i by (simp add: cache_inv_def)
  ultimately show ?thesis by metis
qed

lemma Get_empty: "Get tChk tAcc [] cs = Some ((None, False), cs)"
  by (simp add: Get_def)

lemma Get_missing:
  "key \<noteq> [] \<Longrightarrow> fmlookup (data cs) key = None \<Longrightarrow>
   Get tChk tAcc key cs = Some ((None, False), cs\<lparr>misses := misses cs + 1\<rparr>)"
  by (simp add: Get_def)

lemma Get_expired:
  assumes i: "cache_inv cs as" and kne: "key \<noteq> []" and l: "fmlookup (data cs) key = Some e"
    and x: "IsExpired tChk (store cs e)"
  shows "\<exists>h'. Get tChk tAcc key cs = Some ((None, False),
             cs\<lparr>data := fmdrop key (data cs), store := h',
                expiredRemovals := expiredRemovals cs + 1, misses := misses cs + 1\<rparr>) \<and>
           links_only (store cs) h' \<and>
           cache_inv (cs\<lparr>data := fmdrop key (data cs), store := h',
                expiredRemovals := expiredRemovals cs + 1, misses := misses cs + 1\<rparr>) (remove1 e as)"
proof -
  have ein: "e \<in> set as" and ke: "Key (store cs e) = key" using inv_lookup[OF i l] by simp_all
  from removeEntry_inv[OF i ein] obtain h' where h':
    "removeEntry e cs = Some (cs\<lparr>data := fmdrop key (data cs), store := h'\<rparr>)"
    "links_only (store cs) h'"
    "cache_inv (cs\<lparr>data := fmdrop key (data cs), store := h'\<rparr>) (remove1 e as)"
    unfolding ke by blast
  have "Get tChk tAcc key cs = Some ((None, False),
             cs\<lparr>data := fmdrop key (data cs), store := h',
                expiredRemovals := expiredRemovals cs + 1, misses := misses cs + 1\<rparr>)"
    using kne l x h'(1) by (simp add: Get_def)
  moreover have "cache_inv (cs\<lparr>data := fmdrop key (data cs), store := h',
                expiredRemovals := expiredRemovals cs + 1, misses := misses cs + 1\<rparr>) (remove1 e as)"
    using h'(3) by (simp add: cache_inv_def)
  ultimately show ?thesis using h'(2) by blast
qed

lemma Get_live:
  assumes i: "cache_inv cs as" and kne: "key \<noteq> []" and l: "fmlookup (data cs) key = Some e"
    and x: "\<not> IsExpired tChk (store cs e)"
  shows "\<exists>h'. Get tChk tAcc key cs = Some ((Some e, True), cs\<lparr>store := h', hits := hits cs + 1\<rparr>) \<and>
           links_only ((store cs)(e := UpdateAccessTime tAcc (store cs e))) h' \<and>
           cache_inv (cs\<lparr>store := h', hits := hits cs + 1\<rparr>) (e # remove1 e as)"
proof -
  let ?c1 = "upd e (UpdateAccessTime tAcc) cs"
  have ein: "e \<in> set as" using inv_lookup[OF i l] by simp
  have i1: "cache_inv ?c1 as" using i by (simp add: cache_inv_upd UpdateAccessTime_def)
  from moveToHead_inv[OF i1 ein] obtain h' where h':
    "moveToHead e ?c1 = Some (?c1\<lparr>store := h'\<rparr>)" "links_only (store ?c1) h'"
    "cache_inv (?c1\<lparr>store := h'\<rparr>) (e # remove1 e as)" by blast
  have eq: "?c1\<lparr>store := h'\<rparr> = cs\<lparr>store := h'\<rparr>" by (simp add: upd_def)
  have "Get tChk tAcc key cs = Some ((Some e, True), cs\<lparr>store := h', hits := hits cs + 1\<rparr>)"
    using kne l x h'(1) eq by (simp add: Get_def)
  moreover have "cache_inv (cs\<lparr>store := h', hits := hits cs + 1\<rparr>) (e # remove1 e as)"
    using h'(3) eq by (simp add: cache_inv_def)
  moreover have "links_only ((store cs)(e := UpdateAccessTime tAcc (store cs e))) h'"
    using h'(2) by (simp add: upd_def)
  ultimately show ?thesis by blast
qed

lemma Delete_present:
  assumes i: "cache_inv cs as" and l: "fmlookup (data cs) key = Some e"
  shows "\<exists>h'. Delete key cs = Some ((True, True), cs\<lparr>data := fmdrop key (data cs), store := h'\<rparr>) \<and>
           links_only (store cs) h' \<and>
           cache_inv (cs\<lparr>data := fmdrop key (data cs), store := h'\<rparr>) (remove1 e as)"
proof -
  have ein: "e \<in> set as" and ke: "Key (store cs e) = key" using inv_lookup[OF i l] by simp_all
  have kne: "key \<noteq> []" using inv_key_nonempty[OF i l] .
  from removeEntry_inv[OF i ein] obtain h' where h':
    "removeEntry e cs = Some (cs\<lparr>data := fmdrop key (data cs), store := h'\<rparr>)"
    "links_only (store cs) h'"
    "cache_inv (cs\<lparr>data := fmdrop key (data cs), store := h'\<rparr>) (remove1 e as)"
    unfolding ke by blast
  have "Delete key cs = Some ((True, True), cs\<lparr>data := fmdrop key (data cs), store := h'\<rparr>)"
    using kne l h'(1) by (simp add: Delete_def)
  with h'(2,3) show ?thesis by blast
qed

lemma Delete_absent:
  "key = [] \<or> fmlookup (data cs) key = None \<Longrightarrow> Delete key cs = Some ((False, False), cs)"
  by (auto simp: Delete_def)

lemma Clear_inv:
  assumes i: "cache_inv cs as"
  shows "cache_inv (snd (Clear cs)) []"
  using i by (auto simp: cache_inv_def Clear_def Let_def upd_def keysOf_def)

lemma removeExpired_inv:
  "cache_inv cs as \<Longrightarrow>
   \<exists>cs'. removeExpired ks cs = Some cs' \<and>
     cache_inv cs' (filter (\<lambda>a. Key (store cs a) \<notin> set ks) as) \<and>
     links_only (store cs) (store cs') \<and> maxSize cs' = maxSize cs"
proof (induction ks arbitrary: cs as)
  case Nil
  then show ?case by (simp add: links_only_refl)
next
  case (Cons k ks)
  show ?case
  proof (cases "fmlookup (data cs) k")
    case None
    have "k \<notin> set (keysOf (store cs) as)" using inv_lookup_None[OF Cons.prems None] .
    then have f: "filter (\<lambda>a. Key (store cs a) \<notin> set (k # ks)) as
                = filter (\<lambda>a. Key (store cs a) \<notin> set ks) as"
      by (intro filter_cong) (auto simp: keysOf_def)
    from Cons.IH[OF Cons.prems] None f show ?thesis by simp
  next
    case (Some e)
    have ein: "e \<in> set as" and ke: "Key (store cs e) = k" using inv_lookup[OF Cons.prems Some] by simp_all
    from removeEntry_inv[OF Cons.prems ein] obtain h' where h':
      "removeEntry e cs = Some (cs\<lparr>data := fmdrop k (data cs), store := h'\<rparr>)"
      "links_only (store cs) h'"
      "cache_inv (cs\<lparr>data := fmdrop k (data cs), store := h'\<rparr>) (remove1 e as)"
      unfolding ke by blast
    let ?c1 = "cs\<lparr>data := fmdrop k (data cs), store := h', expiredRemovals := expiredRemovals cs + 1\<rparr>"
    have i1: "cache_inv ?c1 (remove1 e as)" using h'(3) by (simp add: cache_inv_def)
    from Cons.IH[OF i1] obtain cs' where cs':
      "removeExpired ks ?c1 = Some cs'"
      "cache_inv cs' (filter (\<lambda>a. Key (store ?c1 a) \<notin> set ks) (remove1 e as))"
      "links_only (store ?c1) (store cs')" "maxSize cs' = maxSize ?c1" by blast
    have r: "removeExpired (k # ks) cs = Some cs'" using Some h'(1) cs'(1) by simp
    have kk: "\<And>a. Key (store ?c1 a) = Key (store cs a)" using links_only_fields(1)[OF h'(2)] by simp
    have "filter (\<lambda>a. Key (store ?c1 a) \<notin> set ks) (remove1 e as)
        = filter (\<lambda>a. Key (store cs a) \<notin> set (k # ks)) as"
      unfolding kk remove1_by_key[OF Cons.prems ein] ke by (auto intro: filter_cong)
    with cs'(2) have c: "cache_inv cs' (filter (\<lambda>a. Key (store cs a) \<notin> set (k # ks)) as)" by simp
    have l: "links_only (store cs) (store cs')"
      using links_only_trans[OF h'(2)] cs'(3) by simp
    from r c l cs'(4) show ?thesis by simp
  qed
qed

subsection \<open>The example state\<close>

lemmas eval_defs = Put_def Get_def Delete_def Clear_def NewCacheService_def Let_def upd_def
  addToHead_def removeFromList_def moveToHead_def removeEntry_def evictLRU_def len_def
  zeroEntry_def fcard_finsert_if fcard_fempty IsExpired_def Unix_def UpdateAccessTime_def

lemma exCache_reached:
  "run [OpPut 0 0 ''b'' (Some 1) None, OpPut 0 0 ''a'' (Some 2) (Some 5000000000)]
       (NewCacheService 2 0 0) = Some exCache"
  by (simp add: eval_defs exCache_def) (rule ext, simp)

lemma exCache_inv: "cache_inv exCache [3, 2]"
  by (simp add: cache_inv_def keysOf_def exCache_def)

lemma NewCacheService_inv: "cache_inv (NewCacheService cap dttl t0) []"
  by (simp add: cache_inv_def NewCacheService_def Let_def upd_def keysOf_def)

subsection \<open>The state determines its recency list\<close>

lemma dll_unique:
  "dll h p as q \<Longrightarrow> dll h p bs q \<Longrightarrow> q \<notin> set as \<Longrightarrow> q \<notin> set bs \<Longrightarrow> as = bs"
proof (induction as arbitrary: p bs)
  case Nil
  then show ?case by (cases bs) auto
next
  case (Cons a as)
  show ?case
  proof (cases bs)
    case Nil
    with Cons.prems show ?thesis by auto
  next
    case (Cons b bs')
    with Cons.prems Cons.IH[of a bs'] show ?thesis by auto
  qed
qed

lemma cache_inv_unique: "cache_inv cs as \<Longrightarrow> cache_inv cs bs \<Longrightarrow> as = bs"
  by (rule dll_unique[of "store cs" "head cs" as "tail cs"]) (auto simp: cache_inv_def)

subsection \<open>The effect of one operation on the order of the keys\<close>

lemma keys_remove1:
  assumes i: "cache_inv cs as" and e: "e \<in> set as" and k: "\<And>a. Key (h' a) = Key (store cs a)"
  shows "keysOf h' (remove1 e as) = filter (\<lambda>y. y \<noteq> Key (store cs e)) (keysOf (store cs) as)"
  unfolding remove1_by_key[OF i e] keysOf_def by (simp add: filter_map comp_def k)

lemma butlast_filter:
  assumes "distinct K" "K \<noteq> []"
  shows "butlast K = filter (\<lambda>y. y \<noteq> last K) K"
proof -
  have K: "K = butlast K @ [last K]" using assms(2) by simp
  then have "distinct (butlast K @ [last K])" using assms(1) by simp
  then have n: "last K \<notin> set (butlast K)" by simp
  have "filter (\<lambda>y. y \<noteq> last K) (butlast K @ [last K]) = butlast K"
    using n by (simp add: filter_id_conv) metis
  with K show ?thesis by simp
qed

lemma keys_butlast:
  assumes i: "cache_inv cs as" and ne: "as \<noteq> []" and k: "\<And>a. a \<in> set as \<Longrightarrow> Key (h' a) = Key (store cs a)"
  shows "keysOf h' (butlast as) = filter (\<lambda>y. y \<noteq> Key (store cs (last as))) (keysOf (store cs) as)"
proof -
  let ?K = "keysOf (store cs) as"
  have d: "distinct ?K" using i by (simp add: cache_inv_def)
  have n: "?K \<noteq> []" using ne by (simp add: keysOf_def)
  have l: "last ?K = Key (store cs (last as))" using ne by (simp add: keysOf_def last_map)
  have "keysOf h' (butlast as) = keysOf (store cs) (butlast as)"
    using k by (auto simp: keysOf_def dest: in_set_butlastD)
  also have "\<dots> = butlast ?K" by (simp add: keysOf_def map_butlast)
  also have "\<dots> = filter (\<lambda>y. y \<noteq> last ?K) ?K" using butlast_filter[OF d n] .
  finally show ?thesis unfolding l .
qed

lemma step_Put:
  assumes i: "cache_inv cs as"
  shows "\<exists>cs' as' P. step (OpPut tExp now key val ttl) cs = Some cs' \<and> cache_inv cs' as' \<and>
     maxSize cs' = maxSize cs \<and>
     (0 < maxSize cs \<and> int (length as) \<le> maxSize cs \<longrightarrow> int (length as') \<le> maxSize cs) \<and>
     keysOf (store cs') as' = keys_after (touched (OpPut tExp now key val ttl) cs) P (keysOf (store cs) as)"
proof (cases "key = []")
  case True
  show ?thesis
    by (rule exI[of _ cs], rule exI[of _ as], rule exI[of _ "\<lambda>_. True"])
       (use True i in \<open>simp add: Put_def keys_after_def\<close>)
next
  case kne: False
  let ?K = "keysOf (store cs) as"
  show ?thesis
  proof (cases "fmlookup (data cs) key")
    case (Some e)
    from Put_existing[OF i kne Some, of tExp now val ttl] obtain h' where h':
      "Put tExp now key val ttl cs = Some (None, cs\<lparr>store := h'\<rparr>)"
      "links_only ((store cs)(e := (store cs e)\<lparr>Value := val,
                Expiration := putExpiration tExp ttl cs, AccessedAt := now\<rparr>)) h'"
      "cache_inv (cs\<lparr>store := h'\<rparr>) (e # remove1 e as)" by blast
    have ein: "e \<in> set as" and ke: "Key (store cs e) = key" using inv_lookup[OF i Some] by simp_all
    have kk: "\<And>a. Key (h' a) = Key (store cs a)"
      using links_only_fields(1)[OF h'(2)] by (simp split: if_splits)
    have K': "keysOf h' (e # remove1 e as) = key # filter (\<lambda>y. y \<noteq> key) ?K"
      using keys_remove1[OF i ein kk] kk[of e] ke by (simp add: keysOf_def)
    have len: "length (e # remove1 e as) = length as" using ein by (simp add: length_remove1)
      (metis One_nat_def Suc_pred length_pos_if_in_set)
    show ?thesis
      by (rule exI[of _ "cs\<lparr>store := h'\<rparr>"], rule exI[of _ "e # remove1 e as"],
          rule exI[of _ "\<lambda>_. True"])
         (use h'(1,3) K' len kne in \<open>simp add: keys_after_def\<close>)
  next
    case None
    from Put_new[OF i kne None, of val tExp ttl now] obtain h' where l:
      "links_only ((store cs)(fresh cs := \<lparr>Key = key, Value = val,
                    Expiration = putExpiration tExp ttl cs, CreatedAt = now, AccessedAt = now,
                    Prev = None, Next = None\<rparr>)) h'"
      and r: "if len (data cs) \<ge> maxSize cs \<and> as \<noteq> [] then
                Put tExp now key val ttl cs = Some (None,
                  cs\<lparr>store := h', fresh := Suc (fresh cs),
                     data := fmupd key (fresh cs) (fmdrop (Key (store cs (last as))) (data cs)),
                     evictions := evictions cs + 1\<rparr>) \<and>
                cache_inv (cs\<lparr>store := h', fresh := Suc (fresh cs),
                     data := fmupd key (fresh cs) (fmdrop (Key (store cs (last as))) (data cs)),
                     evictions := evictions cs + 1\<rparr>) (fresh cs # butlast as)
              else
                Put tExp now key val ttl cs = Some (None,
                  cs\<lparr>store := h', fresh := Suc (fresh cs), data := fmupd key (fresh cs) (data cs)\<rparr>) \<and>
                cache_inv (cs\<lparr>store := h', fresh := Suc (fresh cs),
                     data := fmupd key (fresh cs) (data cs)\<rparr>) (fresh cs # as)"
      by blast
    have nf: "fresh cs \<notin> set as" using i by (auto simp: cache_inv_def)
    have kf: "Key (h' (fresh cs)) = key" using links_only_fields(1)[OF l, of "fresh cs"] by simp
    have kk: "\<And>a. a \<in> set as \<Longrightarrow> Key (h' a) = Key (store cs a)"
      using links_only_fields(1)[OF l] nf by (auto split: if_splits)
    have knot: "key \<notin> set ?K" using inv_lookup_None[OF i None] .
    show ?thesis
    proof (cases "len (data cs) \<ge> maxSize cs \<and> as \<noteq> []")
      case True
      let ?c = "cs\<lparr>store := h', fresh := Suc (fresh cs),
                     data := fmupd key (fresh cs) (fmdrop (Key (store cs (last as))) (data cs)),
                     evictions := evictions cs + 1\<rparr>"
      let ?v = "Key (store cs (last as))"
      have p: "Put tExp now key val ttl cs = Some (None, ?c)" "cache_inv ?c (fresh cs # butlast as)"
        using r True by simp_all
      have "filter (\<lambda>y. y \<noteq> ?v) ?K = filter (\<lambda>y. y \<noteq> ?v \<and> y \<noteq> key) ?K"
        using knot by (intro filter_cong) auto
      then have K': "keysOf h' (fresh cs # butlast as) = key # filter (\<lambda>y. y \<noteq> ?v \<and> y \<noteq> key) ?K"
        using keys_butlast[OF i _ kk] True kf by (simp add: keysOf_def)
      have len: "length (fresh cs # butlast as) = length as" using True by simp
      show ?thesis
        by (rule exI[of _ ?c], rule exI[of _ "fresh cs # butlast as"], rule exI[of _ "\<lambda>y. y \<noteq> ?v"])
           (use p K' len kne in \<open>simp add: keys_after_def\<close>)
    next
      case False
      let ?c = "cs\<lparr>store := h', fresh := Suc (fresh cs), data := fmupd key (fresh cs) (data cs)\<rparr>"
      have p: "Put tExp now key val ttl cs = Some (None, ?c)" "cache_inv ?c (fresh cs # as)"
        using r False by auto
      have "filter (\<lambda>y. True \<and> y \<noteq> key) ?K = ?K"
        using knot by (intro filter_True) auto
      then have "?K = filter (\<lambda>y. True \<and> y \<noteq> key) ?K" by simp
      moreover have "keysOf h' as = ?K" using kk by (simp add: keysOf_def)
      ultimately have K': "keysOf h' (fresh cs # as) = key # filter (\<lambda>y. True \<and> y \<noteq> key) ?K"
        using kf by (simp add: keysOf_def)
      have len: "0 < maxSize cs \<and> int (length as) \<le> maxSize cs \<longrightarrow>
                   int (length (fresh cs # as)) \<le> maxSize cs"
        using False inv_len[OF i] by auto
      show ?thesis
        by (rule exI[of _ ?c], rule exI[of _ "fresh cs # as"], rule exI[of _ "\<lambda>_. True"])
           (use p K' len kne in \<open>simp add: keys_after_def\<close>)
    qed
  qed
qed

lemma length_remove1_le: "length (remove1 e as) \<le> length as"
  by (simp add: length_remove1)

lemma step_Get:
  assumes i: "cache_inv cs as"
  shows "\<exists>cs' as' P. step (OpGet tChk tAcc key) cs = Some cs' \<and> cache_inv cs' as' \<and>
     maxSize cs' = maxSize cs \<and>
     (0 < maxSize cs \<and> int (length as) \<le> maxSize cs \<longrightarrow> int (length as') \<le> maxSize cs) \<and>
     keysOf (store cs') as' = keys_after (touched (OpGet tChk tAcc key) cs) P (keysOf (store cs) as)"
proof (cases "key = []")
  case True
  show ?thesis
    by (rule exI[of _ cs], rule exI[of _ as], rule exI[of _ "\<lambda>_. True"])
       (use True i in \<open>simp add: Get_def keys_after_def\<close>)
next
  case kne: False
  let ?K = "keysOf (store cs) as"
  show ?thesis
  proof (cases "fmlookup (data cs) key")
    case None
    have "cache_inv (cs\<lparr>misses := misses cs + 1\<rparr>) as" using i by (simp add: cache_inv_def)
    then show ?thesis
      by (intro exI[of _ "cs\<lparr>misses := misses cs + 1\<rparr>"] exI[of _ as] exI[of _ "\<lambda>_. True"])
         (use None kne in \<open>simp add: Get_def keys_after_def\<close>)
  next
    case (Some e)
    have ein: "e \<in> set as" and ke: "Key (store cs e) = key" using inv_lookup[OF i Some] by simp_all
    show ?thesis
    proof (cases "IsExpired tChk (store cs e)")
      case True
      let ?c = "cs\<lparr>data := fmdrop key (data cs), store := h',
                  expiredRemovals := expiredRemovals cs + 1, misses := misses cs + 1\<rparr>"
      from Get_expired[OF i kne Some True, of tAcc] obtain h' where h':
        "Get tChk tAcc key cs = Some ((None, False),
               cs\<lparr>data := fmdrop key (data cs), store := h',
                  expiredRemovals := expiredRemovals cs + 1, misses := misses cs + 1\<rparr>)"
        "links_only (store cs) h'"
        "cache_inv (cs\<lparr>data := fmdrop key (data cs), store := h',
                  expiredRemovals := expiredRemovals cs + 1, misses := misses cs + 1\<rparr>) (remove1 e as)"
        by blast
      have kk: "\<And>a. Key (h' a) = Key (store cs a)" using links_only_fields(1)[OF h'(2)] .
      have K': "keysOf h' (remove1 e as) = filter (\<lambda>y. y \<noteq> key) ?K"
        using keys_remove1[OF i ein kk] ke by simp
      show ?thesis
        by (rule exI[of _ "cs\<lparr>data := fmdrop key (data cs), store := h',
                  expiredRemovals := expiredRemovals cs + 1, misses := misses cs + 1\<rparr>"],
            rule exI[of _ "remove1 e as"], rule exI[of _ "\<lambda>y. y \<noteq> key"])
           (use h'(1,3) K' kne Some True length_remove1_le[of e as] in \<open>simp add: keys_after_def\<close>)
    next
      case False
      from Get_live[OF i kne Some False, of tAcc] obtain h' where h':
        "Get tChk tAcc key cs = Some ((Some e, True), cs\<lparr>store := h', hits := hits cs + 1\<rparr>)"
        "links_only ((store cs)(e := UpdateAccessTime tAcc (store cs e))) h'"
        "cache_inv (cs\<lparr>store := h', hits := hits cs + 1\<rparr>) (e # remove1 e as)" by blast
      have kk: "\<And>a. Key (h' a) = Key (store cs a)"
        using links_only_fields(1)[OF h'(2)] by (simp add: UpdateAccessTime_def split: if_splits)
      have K': "keysOf h' (e # remove1 e as) = key # filter (\<lambda>y. y \<noteq> key) ?K"
        using keys_remove1[OF i ein kk] kk[of e] ke by (simp add: keysOf_def)
      have "length as \<noteq> 0" using ein by auto
      then have len: "length (e # remove1 e as) = length as" using ein by (simp add: length_remove1)
      show ?thesis
        by (rule exI[of _ "cs\<lparr>store := h', hits := hits cs + 1\<rparr>"], rule exI[of _ "e # remove1 e as"],
            rule exI[of _ "\<lambda>_. True"])
           (use h'(1,3) K' len kne Some False in \<open>simp add: keys_after_def\<close>)
    qed
  qed
qed

lemma step_Delete:
  assumes i: "cache_inv cs as"
  shows "\<exists>cs' as' P. step (OpDelete key) cs = Some cs' \<and> cache_inv cs' as' \<and>
     maxSize cs' = maxSize cs \<and>
     (0 < maxSize cs \<and> int (length as) \<le> maxSize cs \<longrightarrow> int (length as') \<le> maxSize cs) \<and>
     keysOf (store cs') as' = keys_after (touched (OpDelete key) cs) P (keysOf (store cs) as)"
proof (cases "fmlookup (data cs) key")
  case None
  then have "Delete key cs = Some ((False, False), cs)" by (simp add: Delete_absent)
  then show ?thesis
    by (intro exI[of _ cs] exI[of _ as] exI[of _ "\<lambda>_. True"]) (use i in \<open>simp add: keys_after_def\<close>)
next
  case (Some e)
  have ein: "e \<in> set as" and ke: "Key (store cs e) = key" using inv_lookup[OF i Some] by simp_all
  from Delete_present[OF i Some] obtain h' where h':
    "Delete key cs = Some ((True, True), cs\<lparr>data := fmdrop key (data cs), store := h'\<rparr>)"
    "links_only (store cs) h'"
    "cache_inv (cs\<lparr>data := fmdrop key (data cs), store := h'\<rparr>) (remove1 e as)" by blast
  have kk: "\<And>a. Key (h' a) = Key (store cs a)" using links_only_fields(1)[OF h'(2)] .
  have K': "keysOf h' (remove1 e as) = filter (\<lambda>y. y \<noteq> key) (keysOf (store cs) as)"
    using keys_remove1[OF i ein kk] ke by simp
  show ?thesis
    by (rule exI[of _ "cs\<lparr>data := fmdrop key (data cs), store := h'\<rparr>"],
        rule exI[of _ "remove1 e as"], rule exI[of _ "\<lambda>y. y \<noteq> key"])
       (use h'(1,3) K' length_remove1_le[of e as] in \<open>simp add: keys_after_def\<close>)
qed

lemma step_Clear:
  assumes i: "cache_inv cs as"
  shows "\<exists>cs' as' P. step OpClear cs = Some cs' \<and> cache_inv cs' as' \<and>
     maxSize cs' = maxSize cs \<and>
     (0 < maxSize cs \<and> int (length as) \<le> maxSize cs \<longrightarrow> int (length as') \<le> maxSize cs) \<and>
     keysOf (store cs') as' = keys_after (touched OpClear cs) P (keysOf (store cs) as)"
proof -
  have m: "maxSize (snd (Clear cs)) = maxSize cs" by (simp add: Clear_def Let_def upd_def)
  show ?thesis
    by (rule exI[of _ "snd (Clear cs)"], rule exI[of _ "[]"], rule exI[of _ "\<lambda>_. False"])
       (use Clear_inv[OF i] m in \<open>simp add: keys_after_def keysOf_def\<close>)
qed

lemma step_Sweep:
  assumes i: "cache_inv cs as"
  shows "\<exists>cs' as' P. step (OpSweep clk ks) cs = Some cs' \<and> cache_inv cs' as' \<and>
     maxSize cs' = maxSize cs \<and>
     (0 < maxSize cs \<and> int (length as) \<le> maxSize cs \<longrightarrow> int (length as') \<le> maxSize cs) \<and>
     keysOf (store cs') as' = keys_after (touched (OpSweep clk ks) cs) P (keysOf (store cs) as)"
proof -
  let ?xs = "expiredKeys clk ks cs"
  let ?as' = "filter (\<lambda>a. Key (store cs a) \<notin> set ?xs) as"
  from removeExpired_inv[OF i, of ?xs] obtain cs' where c:
    "removeExpired ?xs cs = Some cs'" "cache_inv cs' ?as'"
    "links_only (store cs) (store cs')" "maxSize cs' = maxSize cs" by blast
  have kk: "\<And>a. Key (store cs' a) = Key (store cs a)" using links_only_fields(1)[OF c(3)] .
  have K': "keysOf (store cs') ?as' = filter (\<lambda>y. y \<notin> set ?xs) (keysOf (store cs) as)"
    by (simp add: keysOf_def filter_map comp_def kk)
  have "int (length ?as') \<le> int (length as)" by simp
  then have len: "0 < maxSize cs \<and> int (length as) \<le> maxSize cs \<longrightarrow> int (length ?as') \<le> maxSize cs"
    by linarith
  show ?thesis
    by (rule exI[of _ cs'], rule exI[of _ ?as'], rule exI[of _ "\<lambda>y. y \<notin> set ?xs"])
       (use c(1,2,4) K' len in \<open>simp add: keys_after_def cleanupExpired_def\<close>)
qed

lemma step_summary:
  assumes i: "cache_inv cs as"
  shows "\<exists>cs' as' P. step x cs = Some cs' \<and> cache_inv cs' as' \<and>
     maxSize cs' = maxSize cs \<and>
     (0 < maxSize cs \<and> int (length as) \<le> maxSize cs \<longrightarrow> int (length as') \<le> maxSize cs) \<and>
     keysOf (store cs') as' = keys_after (touched x cs) P (keysOf (store cs) as)"
proof (cases x)
  case (OpPut tExp now key val ttl)
  then show ?thesis using step_Put[OF i] by blast
next
  case (OpGet tChk tAcc key)
  then show ?thesis using step_Get[OF i] by blast
next
  case (OpDelete key)
  then show ?thesis using step_Delete[OF i] by blast
next
  case OpClear
  then show ?thesis using step_Clear[OF i] by blast
next
  case (OpSweep clk ks)
  then show ?thesis using step_Sweep[OF i] by blast
qed

subsection \<open>Histories\<close>

lemma sorted_age_step:
  assumes s: "sorted_wrt (\<lambda>a b. age log a < age log b) K"
  shows "sorted_wrt (\<lambda>a b. age (case t of None \<Rightarrow> log | Some k \<Rightarrow> k # log) a
                        < age (case t of None \<Rightarrow> log | Some k \<Rightarrow> k # log) b) (keys_after t P K)"
proof (cases t)
  case None
  then show ?thesis using s by (simp add: keys_after_def sorted_wrt_filter)
next
  case (Some k)
  let ?F = "filter (\<lambda>y. P y \<and> y \<noteq> k) K"
  have f: "sorted_wrt (\<lambda>a b. age log a < age log b) ?F" using s by (rule sorted_wrt_filter)
  have "sorted_wrt (\<lambda>a b. age (k # log) a < age (k # log) b) ?F"
    by (rule sorted_wrt_mono_rel[OF _ f]) auto
  moreover have "\<forall>y\<in>set ?F. age (k # log) k < age (k # log) y" by auto
  ultimately show ?thesis using Some by (simp add: keys_after_def)
qed

lemma run_inv:
  "cache_inv cs as \<Longrightarrow> sorted_wrt (\<lambda>a b. age log a < age log b) (keysOf (store cs) as) \<Longrightarrow>
   0 < maxSize cs \<Longrightarrow> int (length as) \<le> maxSize cs \<Longrightarrow>
   \<exists>cs' as'. run ops cs = Some cs' \<and> cache_inv cs' as' \<and> maxSize cs' = maxSize cs \<and>
     int (length as') \<le> maxSize cs \<and>
     sorted_wrt (\<lambda>a b. age (touches ops cs log) a < age (touches ops cs log) b)
       (keysOf (store cs') as')"
proof (induction ops arbitrary: cs as log)
  case Nil
  then show ?case by auto
next
  case (Cons x ops)
  from step_summary[OF Cons.prems(1), of x] obtain cs1 as1 P where s:
    "step x cs = Some cs1" "cache_inv cs1 as1" "maxSize cs1 = maxSize cs"
    "0 < maxSize cs \<and> int (length as) \<le> maxSize cs \<longrightarrow> int (length as1) \<le> maxSize cs"
    "keysOf (store cs1) as1 = keys_after (touched x cs) P (keysOf (store cs) as)" by blast
  let ?log1 = "case touched x cs of None \<Rightarrow> log | Some k \<Rightarrow> k # log"
  have so: "sorted_wrt (\<lambda>a b. age ?log1 a < age ?log1 b) (keysOf (store cs1) as1)"
    unfolding s(5) using Cons.prems(2) by (rule sorted_age_step)
  have m: "0 < maxSize cs1" "int (length as1) \<le> maxSize cs1" using s(3,4) Cons.prems(3,4) by auto
  from Cons.IH[OF s(2) so m] obtain cs' as' where r:
    "run ops cs1 = Some cs'" "cache_inv cs' as'" "maxSize cs' = maxSize cs1"
    "int (length as') \<le> maxSize cs1"
    "sorted_wrt (\<lambda>a b. age (touches ops cs1 ?log1) a < age (touches ops cs1 ?log1) b)
       (keysOf (store cs') as')" by blast
  have t: "touches (x # ops) cs log = touches ops cs1 ?log1" using s(1) by simp
  show ?case
    by (rule exI[of _ cs'], rule exI[of _ as']) (use r s(1,3) t in simp)
qed

lemma run_from_new:
  fixes ops :: "'v op list"
  assumes c: "0 < cap"
  shows "\<exists>cs as. run ops (NewCacheService cap dttl t0) = Some cs \<and> cache_inv cs as \<and>
     maxSize cs = cap \<and> int (length as) \<le> cap \<and>
     sorted_wrt (\<lambda>a b. age (touches ops (NewCacheService cap dttl t0) []) a
                      < age (touches ops (NewCacheService cap dttl t0) []) b)
       (keysOf (store cs) as)"
proof -
  let ?n = "NewCacheService cap dttl t0 :: 'v CacheService"
  have m: "maxSize ?n = cap" by (simp add: NewCacheService_def Let_def upd_def)
  have "\<exists>cs' as'. run ops ?n = Some cs' \<and> cache_inv cs' as' \<and> maxSize cs' = maxSize ?n \<and>
     int (length as') \<le> maxSize ?n \<and>
     sorted_wrt (\<lambda>a b. age (touches ops ?n []) a < age (touches ops ?n []) b)
       (keysOf (store cs') as')"
  proof (rule run_inv)
    show "cache_inv ?n []" by (rule NewCacheService_inv)
    show "sorted_wrt (\<lambda>a b. age [] a < age [] b) (keysOf (store ?n) [])" by (simp add: keysOf_def)
    show "0 < maxSize ?n" using c m by simp
    show "int (length ([] :: addr list)) \<le> maxSize ?n" using c m by simp
  qed
  then show ?thesis unfolding m .
qed

lemma Put_evicts:
  assumes i: "cache_inv cs as" and kne: "key \<noteq> []" and l: "fmlookup (data cs) key = None"
    and full: "maxSize cs \<le> len (data cs)" and pos: "0 < maxSize cs"
  shows "as \<noteq> [] \<and> Key (store cs (last as)) |\<in>| fmdom (data cs) \<and>
     (\<exists>cs'. Put tExp now key val ttl cs = Some (None, cs') \<and>
        fmdom (data cs') = finsert key (fmdom (data cs) |-| {|Key (store cs (last as))|}) \<and>
        len (data cs') = len (data cs) \<and> evictions cs' = evictions cs + 1 \<and>
        cache_inv cs' (fresh cs # butlast as))"
proof -
  have ne: "as \<noteq> []" using full pos inv_len[OF i] by auto
  let ?v = "Key (store cs (last as))"
  have "fmlookup (data cs) ?v = Some (last as)" using i ne by (simp add: cache_inv_def)
  then have vin: "?v |\<in>| fmdom (data cs)" by (rule fmdomI)
  from Put_new[OF i kne l, of val tExp ttl now] full ne obtain h' where p:
    "Put tExp now key val ttl cs = Some (None,
        cs\<lparr>store := h', fresh := Suc (fresh cs),
           data := fmupd key (fresh cs) (fmdrop ?v (data cs)), evictions := evictions cs + 1\<rparr>)"
    "cache_inv (cs\<lparr>store := h', fresh := Suc (fresh cs),
           data := fmupd key (fresh cs) (fmdrop ?v (data cs)), evictions := evictions cs + 1\<rparr>)
       (fresh cs # butlast as)"
    by auto
  have "len (fmupd key (fresh cs) (fmdrop ?v (data cs))) = int (length (fresh cs # butlast as))"
    using inv_len[OF p(2)] by simp
  then have le: "len (fmupd key (fresh cs) (fmdrop ?v (data cs))) = len (data cs)"
    using inv_len[OF i] ne by simp
  show ?thesis
    apply (intro conjI ne vin)
    apply (rule exI[of _ "cs\<lparr>store := h', fresh := Suc (fresh cs),
           data := fmupd key (fresh cs) (fmdrop ?v (data cs)), evictions := evictions cs + 1\<rparr>"])
    using p le by simp
qed

subsection \<open>Expiration and the result of Put\<close>

lemma putExpiration_effective:
  "putExpiration tExp ttl cs = (case effectiveTTL ttl cs of None \<Rightarrow> 0 | Some d \<Rightarrow> Unix (tExp + d))"
  by (auto simp: putExpiration_def effectiveTTL_def)

lemma Unix_mono: "a \<le> b \<Longrightarrow> Unix a \<le> Unix b"
  by (simp add: Unix_def zdiv_mono1)

lemma inv_head_lookup:
  assumes "cache_inv cs (e # as)"
  shows "fmlookup (data cs) (Key (store cs e)) = Some e"
  using assms by (simp add: cache_inv_def)

lemma Put_summary:
  assumes i: "cache_inv cs as" and kne: "key \<noteq> []"
  shows "\<exists>cs' e as'. Put tExp now key val ttl cs = Some (None, cs') \<and> cache_inv cs' (e # as') \<and>
           Key (store cs' e) = key \<and> Value (store cs' e) = val \<and>
           Expiration (store cs' e) = putExpiration tExp ttl cs \<and> AccessedAt (store cs' e) = now"
proof (cases "fmlookup (data cs) key")
  case None
  from Put_new[OF i kne None, of val tExp ttl now] obtain h' where l:
    "links_only ((store cs)(fresh cs := \<lparr>Key = key, Value = val,
                  Expiration = putExpiration tExp ttl cs, CreatedAt = now, AccessedAt = now,
                  Prev = None, Next = None\<rparr>)) h'"
    and r: "if len (data cs) \<ge> maxSize cs \<and> as \<noteq> [] then
              Put tExp now key val ttl cs = Some (None,
                cs\<lparr>store := h', fresh := Suc (fresh cs),
                   data := fmupd key (fresh cs) (fmdrop (Key (store cs (last as))) (data cs)),
                   evictions := evictions cs + 1\<rparr>) \<and>
              cache_inv (cs\<lparr>store := h', fresh := Suc (fresh cs),
                   data := fmupd key (fresh cs) (fmdrop (Key (store cs (last as))) (data cs)),
                   evictions := evictions cs + 1\<rparr>) (fresh cs # butlast as)
            else
              Put tExp now key val ttl cs = Some (None,
                cs\<lparr>store := h', fresh := Suc (fresh cs), data := fmupd key (fresh cs) (data cs)\<rparr>) \<and>
              cache_inv (cs\<lparr>store := h', fresh := Suc (fresh cs),
                   data := fmupd key (fresh cs) (data cs)\<rparr>) (fresh cs # as)"
    by blast
  have "\<exists>cs' as'. Put tExp now key val ttl cs = Some (None, cs') \<and>
          cache_inv cs' (fresh cs # as') \<and> store cs' = h'"
  proof (cases "len (data cs) \<ge> maxSize cs \<and> as \<noteq> []")
    case True
    show ?thesis
      by (rule exI[of _ "cs\<lparr>store := h', fresh := Suc (fresh cs),
                   data := fmupd key (fresh cs) (fmdrop (Key (store cs (last as))) (data cs)),
                   evictions := evictions cs + 1\<rparr>"], rule exI[of _ "butlast as"])
         (use r True in simp)
  next
    case False
    show ?thesis
      by (rule exI[of _ "cs\<lparr>store := h', fresh := Suc (fresh cs),
                   data := fmupd key (fresh cs) (data cs)\<rparr>"], rule exI[of _ as])
         (use r False in auto)
  qed
  then obtain cs' as' where c: "Put tExp now key val ttl cs = Some (None, cs')"
    "cache_inv cs' (fresh cs # as')" "store cs' = h'" by blast
  have "Key (h' (fresh cs)) = key" "Value (h' (fresh cs)) = val"
    "Expiration (h' (fresh cs)) = putExpiration tExp ttl cs" "AccessedAt (h' (fresh cs)) = now"
    using links_only_fields[OF l, of "fresh cs"] by simp_all
  with c show ?thesis by auto
next
  case (Some e)
  from Put_existing[OF i kne Some, of tExp now val ttl] obtain h' where h':
    "Put tExp now key val ttl cs = Some (None, cs\<lparr>store := h'\<rparr>)"
    "links_only ((store cs)(e := (store cs e)\<lparr>Value := val,
              Expiration := putExpiration tExp ttl cs, AccessedAt := now\<rparr>)) h'"
    "cache_inv (cs\<lparr>store := h'\<rparr>) (e # remove1 e as)" by blast
  have ke: "Key (store cs e) = key" using inv_lookup[OF i Some] by simp
  have "Key (h' e) = key" "Value (h' e) = val"
    "Expiration (h' e) = putExpiration tExp ttl cs" "AccessedAt (h' e) = now"
    using links_only_fields[OF h'(2), of e] ke by simp_all
  with h'(1,3) show ?thesis
    by (intro exI[of _ "cs\<lparr>store := h'\<rparr>"] exI[of _ e] exI[of _ "remove1 e as"]) simp
qed

lemma exCache_touches:
  "touches [OpPut 0 0 ''b'' (Some 1) None, OpPut 0 0 ''a'' (Some 2) (Some 5000000000)]
       (NewCacheService 2 0 0 :: nat CacheService) [] = [''a'', ''b'']"
  by (simp add: eval_defs)

subsection \<open>BulkGet\<close>

lemma Get_result:
  assumes i: "cache_inv cs as"
  shows "\<exists>e f cs' as'. Get tChk tAcc key cs = Some ((e, f), cs') \<and> cache_inv cs' as' \<and>
     (if f then (\<exists>a. e = Some a \<and> fmlookup (data cs) key = Some a) \<and>
              hits cs' = hits cs + 1 \<and> misses cs' = misses cs
      else hits cs' = hits cs \<and> misses cs' = misses cs + (if key = [] then 0 else 1)) \<and>
     (\<forall>k a. fmlookup (data cs') k = Some a \<longrightarrow> fmlookup (data cs) k = Some a) \<and>
     (\<forall>a. Key (store cs' a) = Key (store cs a) \<and> Value (store cs' a) = Value (store cs a) \<and>
          CreatedAt (store cs' a) = CreatedAt (store cs a))"
proof (cases "key = []")
  case True
  show ?thesis
    by (rule exI[of _ None], rule exI[of _ False], rule exI[of _ cs], rule exI[of _ as])
       (use True i in \<open>simp add: Get_empty\<close>)
next
  case kne: False
  show ?thesis
  proof (cases "fmlookup (data cs) key")
    case None
    have "cache_inv (cs\<lparr>misses := misses cs + 1\<rparr>) as" using i by (simp add: cache_inv_def)
    then show ?thesis
      by (intro exI[of _ None] exI[of _ False] exI[of _ "cs\<lparr>misses := misses cs + 1\<rparr>"] exI[of _ as])
         (use None kne in \<open>simp add: Get_missing\<close>)
  next
    case (Some e)
    show ?thesis
    proof (cases "IsExpired tChk (store cs e)")
      case True
      from Get_expired[OF i kne Some True, of tAcc] obtain h' where h':
        "Get tChk tAcc key cs = Some ((None, False),
               cs\<lparr>data := fmdrop key (data cs), store := h',
                  expiredRemovals := expiredRemovals cs + 1, misses := misses cs + 1\<rparr>)"
        "links_only (store cs) h'"
        "cache_inv (cs\<lparr>data := fmdrop key (data cs), store := h',
                  expiredRemovals := expiredRemovals cs + 1, misses := misses cs + 1\<rparr>) (remove1 e as)"
        by blast
      have fr: "\<And>a. Key (h' a) = Key (store cs a) \<and> Value (h' a) = Value (store cs a) \<and>
          CreatedAt (h' a) = CreatedAt (store cs a)"
        using links_only_fields[OF h'(2)] by simp
      have dr: "\<And>k a. fmlookup (fmdrop key (data cs)) k = Some a \<Longrightarrow> fmlookup (data cs) k = Some a"
        by (simp split: if_splits)
      show ?thesis
        by (rule exI[of _ None], rule exI[of _ False],
            rule exI[of _ "cs\<lparr>data := fmdrop key (data cs), store := h',
                  expiredRemovals := expiredRemovals cs + 1, misses := misses cs + 1\<rparr>"],
            rule exI[of _ "remove1 e as"])
           (use h'(1,3) kne fr dr in simp)
    next
      case False
      from Get_live[OF i kne Some False, of tAcc] obtain h' where h':
        "Get tChk tAcc key cs = Some ((Some e, True), cs\<lparr>store := h', hits := hits cs + 1\<rparr>)"
        "links_only ((store cs)(e := UpdateAccessTime tAcc (store cs e))) h'"
        "cache_inv (cs\<lparr>store := h', hits := hits cs + 1\<rparr>) (e # remove1 e as)" by blast
      have fr: "\<And>a. Key (h' a) = Key (store cs a) \<and> Value (h' a) = Value (store cs a) \<and>
          CreatedAt (h' a) = CreatedAt (store cs a)"
        using links_only_fields[OF h'(2)] by (simp add: UpdateAccessTime_def)
      show ?thesis
        by (rule exI[of _ "Some e"], rule exI[of _ True],
            rule exI[of _ "cs\<lparr>store := h', hits := hits cs + 1\<rparr>"],
            rule exI[of _ "e # remove1 e as"])
           (use h'(1,3) Some fr in simp)
    qed
  qed
qed

lemma bulkGetLoop_spec:
  "cache_inv cs as \<Longrightarrow>
   \<exists>rs resp' cs' as'. getEach clk i keys cs = Some (rs, cs') \<and>
     bulkGetLoop clk i keys resp cs = Some (resp', cs') \<and> cache_inv cs' as' \<and>
     map rKey rs = keys \<and>
     Found resp' = Found resp + int (length (filter rFound rs)) \<and>
     NotFound resp' = NotFound resp + int (length (filter (\<lambda>r. \<not> rFound r) rs)) \<and>
     hits cs' = hits cs + of_nat (length (filter rFound rs)) \<and>
     misses cs' = misses cs + of_nat (missCount keys (map rFound rs)) \<and>
     (\<forall>k. fmlookup (Results resp') k =
        (case map_of (rev (zip keys rs)) k of Some r \<Rightarrow> Some r | None \<Rightarrow> fmlookup (Results resp) k)) \<and>
     (\<forall>r\<in>set rs. if rFound r
        then \<exists>a. fmlookup (data cs) (rKey r) = Some a \<and> rValue r = Value (store cs a) \<and>
               rCreatedAt r = CreatedAt (store cs a)
        else r = notFoundResponse (rKey r)) \<and>
     (\<forall>k a. fmlookup (data cs') k = Some a \<longrightarrow> fmlookup (data cs) k = Some a) \<and>
     (\<forall>a. Key (store cs' a) = Key (store cs a) \<and> Value (store cs' a) = Value (store cs a) \<and>
          CreatedAt (store cs' a) = CreatedAt (store cs a))"
proof (induction keys arbitrary: i resp cs as)
  case Nil
  show ?case
    by (rule exI[of _ "[]"], rule exI[of _ resp], rule exI[of _ cs], rule exI[of _ as])
       (use Nil in simp)
next
  case (Cons key keys)
  obtain tChk tAcc tResp where clk: "clk i = (tChk, tAcc, tResp)" by (cases "clk i") auto
  from Get_result[OF Cons.prems, of tChk tAcc key] obtain e f cs1 as1 where g:
    "Get tChk tAcc key cs = Some ((e, f), cs1)" "cache_inv cs1 as1"
    "if f then (\<exists>a. e = Some a \<and> fmlookup (data cs) key = Some a) \<and>
              hits cs1 = hits cs + 1 \<and> misses cs1 = misses cs
     else hits cs1 = hits cs \<and> misses cs1 = misses cs + (if key = [] then 0 else 1)"
    "\<forall>k a. fmlookup (data cs1) k = Some a \<longrightarrow> fmlookup (data cs) k = Some a"
    "\<forall>a. Key (store cs1 a) = Key (store cs a) \<and> Value (store cs1 a) = Value (store cs a) \<and>
          CreatedAt (store cs1 a) = CreatedAt (store cs a)"
    by blast
  define r where "r = (if f then ToResponse tResp (store cs1 (the e)) else notFoundResponse key)"
  define resp1 where "resp1 =
    (if f then resp\<lparr>Results := fmupd key r (Results resp), Found := Found resp + 1\<rparr>
     else resp\<lparr>Results := fmupd key r (Results resp), NotFound := NotFound resp + 1\<rparr>)"
  have rk: "rKey r = key" and rf: "rFound r = f"
    and rp: "if rFound r
        then \<exists>a. fmlookup (data cs) (rKey r) = Some a \<and> rValue r = Value (store cs a) \<and>
               rCreatedAt r = CreatedAt (store cs a)
        else r = notFoundResponse (rKey r)"
  proof -
    show "rFound r = f" by (simp add: r_def ToResponse_def notFoundResponse_def)
    show k: "rKey r = key"
    proof (cases f)
      case True
      then obtain a where a: "e = Some a" "fmlookup (data cs) key = Some a" using g(3) by auto
      have "Key (store cs a) = key" using inv_lookup[OF Cons.prems a(2)] by simp
      then show ?thesis using True a(1) g(5) by (simp add: r_def ToResponse_def)
    next
      case False
      then show ?thesis by (simp add: r_def notFoundResponse_def)
    qed
    show "if rFound r
        then \<exists>a. fmlookup (data cs) (rKey r) = Some a \<and> rValue r = Value (store cs a) \<and>
               rCreatedAt r = CreatedAt (store cs a)
        else r = notFoundResponse (rKey r)"
    proof (cases f)
      case True
      then obtain a where a: "e = Some a" "fmlookup (data cs) key = Some a" using g(3) by auto
      have "rValue r = Value (store cs a)" "rCreatedAt r = CreatedAt (store cs a)" "rFound r"
        using True a(1) g(5) by (simp_all add: r_def ToResponse_def)
      then show ?thesis using a(2) k by simp
    next
      case False
      then show ?thesis by (simp add: r_def notFoundResponse_def)
    qed
  qed
  have loop: "bulkGetLoop clk i (key # keys) resp cs = bulkGetLoop clk (Suc i) keys resp1 cs1"
    using clk g(1,3) by (cases f) (auto simp: resp1_def r_def)
  have each: "getEach clk i (key # keys) cs =
      (case getEach clk (Suc i) keys cs1 of None \<Rightarrow> None
       | Some (rs, cs') \<Rightarrow> Some (r # rs, cs'))"
    using clk g(1,3) unfolding r_def by (cases f) (auto split: option.splits)
  have r1: "Found resp1 = Found resp + (if f then 1 else 0)"
    "NotFound resp1 = NotFound resp + (if f then 0 else 1)"
    "\<And>k. fmlookup (Results resp1) k = (if k = key then Some r else fmlookup (Results resp) k)"
    by (auto simp: resp1_def)
  from Cons.IH[OF g(2), of "Suc i" resp1] obtain rs resp' cs' as' where ih:
    "getEach clk (Suc i) keys cs1 = Some (rs, cs')"
    "bulkGetLoop clk (Suc i) keys resp1 cs1 = Some (resp', cs')" "cache_inv cs' as'"
    "map rKey rs = keys"
    "Found resp' = Found resp1 + int (length (filter rFound rs))"
    "NotFound resp' = NotFound resp1 + int (length (filter (\<lambda>r. \<not> rFound r) rs))"
    "hits cs' = hits cs1 + of_nat (length (filter rFound rs))"
    "misses cs' = misses cs1 + of_nat (missCount keys (map rFound rs))"
    "\<forall>k. fmlookup (Results resp') k =
        (case map_of (rev (zip keys rs)) k of Some r \<Rightarrow> Some r | None \<Rightarrow> fmlookup (Results resp1) k)"
    "\<forall>r\<in>set rs. if rFound r
        then \<exists>a. fmlookup (data cs1) (rKey r) = Some a \<and> rValue r = Value (store cs1 a) \<and>
               rCreatedAt r = CreatedAt (store cs1 a)
        else r = notFoundResponse (rKey r)"
    "\<forall>k a. fmlookup (data cs') k = Some a \<longrightarrow> fmlookup (data cs1) k = Some a"
    "\<forall>a. Key (store cs' a) = Key (store cs1 a) \<and> Value (store cs' a) = Value (store cs1 a) \<and>
          CreatedAt (store cs' a) = CreatedAt (store cs1 a)"
    by blast
  have a1: "getEach clk i (key # keys) cs = Some (r # rs, cs')" using each ih(1) by simp
  have a2: "bulkGetLoop clk i (key # keys) resp cs = Some (resp', cs')" using loop ih(2) by simp
  have a3: "map rKey (r # rs) = key # keys" using ih(4) rk by simp
  have a4: "Found resp' = Found resp + int (length (filter rFound (r # rs)))"
    using ih(5) r1(1) rf by simp
  have a5: "NotFound resp' = NotFound resp + int (length (filter (\<lambda>r. \<not> rFound r) (r # rs)))"
    using ih(6) r1(2) rf by simp
  have a6: "hits cs' = hits cs + of_nat (length (filter rFound (r # rs)))"
    using ih(7) g(3) rf by (cases f) simp_all
  have a7: "misses cs' = misses cs + of_nat (missCount (key # keys) (map rFound (r # rs)))"
    using ih(8) g(3) rf by (cases f) simp_all
  have a8: "\<forall>k. fmlookup (Results resp') k =
        (case map_of (rev (zip (key # keys) (r # rs))) k of Some r \<Rightarrow> Some r
         | None \<Rightarrow> fmlookup (Results resp) k)"
  proof
    fix k
    have "map_of (rev (zip (key # keys) (r # rs))) k
        = (case map_of (rev (zip keys rs)) k of Some x \<Rightarrow> Some x
           | None \<Rightarrow> if k = key then Some r else None)"
      by (simp add: map_add_def split: option.splits)
    then show "fmlookup (Results resp') k =
        (case map_of (rev (zip (key # keys) (r # rs))) k of Some r \<Rightarrow> Some r
         | None \<Rightarrow> fmlookup (Results resp) k)"
      using ih(9) r1(3) by (simp split: option.splits)
  qed
  have a9: "\<forall>r\<in>set (r # rs). if rFound r
        then \<exists>a. fmlookup (data cs) (rKey r) = Some a \<and> rValue r = Value (store cs a) \<and>
               rCreatedAt r = CreatedAt (store cs a)
        else r = notFoundResponse (rKey r)"
  proof
    fix x assume x: "x \<in> set (r # rs)"
    show "if rFound x
        then \<exists>a. fmlookup (data cs) (rKey x) = Some a \<and> rValue x = Value (store cs a) \<and>
               rCreatedAt x = CreatedAt (store cs a)
        else x = notFoundResponse (rKey x)"
    proof (cases "x = r")
      case True
      then show ?thesis using rp by simp
    next
      case False
      then have xin: "x \<in> set rs" using x by simp
      show ?thesis
      proof (cases "rFound x")
        case True
        then obtain a where a: "fmlookup (data cs1) (rKey x) = Some a"
          "rValue x = Value (store cs1 a)" "rCreatedAt x = CreatedAt (store cs1 a)"
          using ih(10) xin by (metis (full_types))
        have "fmlookup (data cs) (rKey x) = Some a" using g(4) a(1) by blast
        then show ?thesis using True a(2,3) g(5) by simp
      next
        case False
        then show ?thesis using ih(10) xin by (metis (full_types))
      qed
    qed
  qed
  have a10: "\<forall>k a. fmlookup (data cs') k = Some a \<longrightarrow> fmlookup (data cs) k = Some a"
    using ih(11) g(4) by blast
  have a11: "\<forall>a. Key (store cs' a) = Key (store cs a) \<and> Value (store cs' a) = Value (store cs a) \<and>
          CreatedAt (store cs' a) = CreatedAt (store cs a)"
    using ih(12) g(5) by simp
  show ?case
    by (rule exI[of _ "r # rs"], rule exI[of _ resp'], rule exI[of _ cs'], rule exI[of _ as'])
       (intro conjI a1 a2 a3 a4 a5 a6 a7 a8 a9 a10 a11 ih(3))
qed

lemma zip_keys_responses: "map f rs = keys \<Longrightarrow> zip keys rs = map (\<lambda>r. (f r, r)) rs"
  by (induction rs arbitrary: keys) auto

lemma last_outcome:
  assumes m: "map rKey rs = keys"
  shows "(k \<in> set keys \<longrightarrow> (\<exists>r\<in>set rs. map_of (rev (zip keys rs)) k = Some r \<and> rKey r = k)) \<and>
         (k \<notin> set keys \<longrightarrow> map_of (rev (zip keys rs)) k = None)"
proof -
  have z: "zip keys rs = map (\<lambda>r. (rKey r, r)) rs" using zip_keys_responses[OF m] .
  have f: "fst ` set (rev (zip keys rs)) = set keys" using m unfolding z by force
  have a: "\<exists>r\<in>set rs. map_of (rev (zip keys rs)) k = Some r \<and> rKey r = k" if "k \<in> set keys"
  proof -
    have "map_of (rev (zip keys rs)) k \<noteq> None" using that f by (simp add: map_of_eq_None_iff)
    then obtain r where r: "map_of (rev (zip keys rs)) k = Some r" by blast
    then have "(k, r) \<in> set (zip keys rs)" using map_of_SomeD[OF r] by simp
    then have "r \<in> set rs \<and> rKey r = k" unfolding z by auto
    with r show ?thesis by blast
  qed
  have b: "map_of (rev (zip keys rs)) k = None" if "k \<notin> set keys"
    using that f by (simp add: map_of_eq_None_iff)
  show ?thesis using a b by blast
qed

lemma exCache_getEach:
  "\<exists>rs cs'. getEach (\<lambda>_. (6000000000, 6000000001, 6000000002)) 0 [''b'', ''b'', ''c''] exCache
          = Some (rs, cs') \<and> map rFound rs = [True, True, False]"
proof -
  have kb: "''b'' \<noteq> []" and kc: "''c'' \<noteq> []" by simp_all
  have l0: "fmlookup (data exCache) ''b'' = Some 2" and x0: "\<not> IsExpired 6000000000 (store exCache 2)"
    and d0: "fmlookup (data exCache) ''c'' = None"
    by (simp_all add: exCache_def IsExpired_def)
  from Get_live[OF exCache_inv kb l0 x0, of 6000000001] obtain h1 where h1:
    "Get 6000000000 6000000001 ''b'' exCache
       = Some ((Some 2, True), exCache\<lparr>store := h1, hits := hits exCache + 1\<rparr>)"
    "links_only ((store exCache)(2 := UpdateAccessTime 6000000001 (store exCache 2))) h1"
    "cache_inv (exCache\<lparr>store := h1, hits := hits exCache + 1\<rparr>) (2 # remove1 2 [3, 2])" by blast
  define c1 where "c1 = exCache\<lparr>store := h1, hits := hits exCache + 1\<rparr>"
  have g1: "Get 6000000000 6000000001 ''b'' exCache = Some ((Some 2, True), c1)"
    and i1: "cache_inv c1 (2 # remove1 2 [3, 2])"
    using h1(1,3) by (simp_all add: c1_def)
  have l1: "fmlookup (data c1) ''b'' = Some 2" and d1: "fmlookup (data c1) ''c'' = None"
    using l0 d0 by (simp_all add: c1_def)
  have "Expiration (h1 2) = 0"
    using links_only_fields(3)[OF h1(2), of 2] by (simp add: UpdateAccessTime_def exCache_def)
  then have x1: "\<not> IsExpired 6000000000 (store c1 2)" by (simp add: IsExpired_def c1_def)
  from Get_live[OF i1 kb l1 x1, of 6000000001] obtain h2 where h2:
    "Get 6000000000 6000000001 ''b'' c1
       = Some ((Some 2, True), c1\<lparr>store := h2, hits := hits c1 + 1\<rparr>)" by blast
  define c2 where "c2 = c1\<lparr>store := h2, hits := hits c1 + 1\<rparr>"
  have g2: "Get 6000000000 6000000001 ''b'' c1 = Some ((Some 2, True), c2)"
    using h2 by (simp add: c2_def)
  have d2: "fmlookup (data c2) ''c'' = None" using d1 by (simp add: c2_def)
  have g3: "Get 6000000000 6000000001 ''c'' c2 = Some ((None, False), c2\<lparr>misses := misses c2 + 1\<rparr>)"
    using Get_missing[OF kc d2] .
  show ?thesis
    by (rule exI[of _ "[ToResponse 6000000002 (store c1 2), ToResponse 6000000002 (store c2 2),
                        notFoundResponse ''c'']"],
        rule exI[of _ "c2\<lparr>misses := misses c2 + 1\<rparr>"])
       (simp add: g1 g2 g3 ToResponse_def notFoundResponse_def)
qed

section \<open>The claims\<close>

text \<open>
  Claim C1, as stated, fails at the boundary: the entry \<open>''a''\<close> of the example state
  expires at second 5, and a \<open>Get\<close> that reads the clock at exactly 5 s returns it.
\<close>

theorem Get_at_expiration_counterexample:
  "fmlookup (data exCache) ''a'' = Some 3 \<and> Expiration (store exCache 3) = 5 \<and>
   Unix 5000000000 = 5 \<and>
   map_option fst (Get 5000000000 5000000000 ''a'' exCache) = Some (Some 3, True)"
proof -
  have l: "fmlookup (data exCache) ''a'' = Some 3" and x: "Expiration (store exCache 3) = 5"
    and u: "Unix 5000000000 = 5"
    by (simp_all add: exCache_def Unix_def)
  have live: "\<not> IsExpired 5000000000 (store exCache 3)" using x u by (simp add: IsExpired_def)
  have "''a'' \<noteq> []" by simp
  from Get_live[OF exCache_inv this l live, of 5000000000] obtain cs' where
    "Get 5000000000 5000000000 ''a'' exCache = Some ((Some 3, True), cs')" by blast
  then show ?thesis using l x u by simp
qed

text \<open>
  Claim C1, amended. For a key in the index whose entry has an expiration (a non-zero
  \<open>Expiration\<close>, in whole seconds): when the expiration is strictly less than the second
  of the clock read of \<open>Get\<close>, \<open>Get\<close> removes the entry and reports not-found, whether a
  sweep has run or not; when the second of the clock is at most the expiration, as at the
  boundary where both are equal, \<open>Get\<close> returns the entry.
\<close>

theorem Get_expiry_strict:
  "cache_inv cs as \<Longrightarrow> fmlookup (data cs) key = Some e \<Longrightarrow> Expiration (store cs e) \<noteq> 0 \<Longrightarrow>
   (Expiration (store cs e) < Unix now \<longrightarrow>
      (\<exists>cs'. Get now tAcc key cs = Some ((None, False), cs') \<and>
         fmlookup (data cs') key = None \<and> cache_inv cs' (remove1 e as))) \<and>
   (Unix now' \<le> Expiration (store cs e) \<longrightarrow>
      (\<exists>cs'. Get now' tAcc key cs = Some ((Some e, True), cs')))"
proof (intro conjI impI)
  assume i: "cache_inv cs as" and l: "fmlookup (data cs) key = Some e"
    and nz: "Expiration (store cs e) \<noteq> 0"
  have kne: "key \<noteq> []" using inv_key_nonempty[OF i l] .
  show "\<exists>cs'. Get now tAcc key cs = Some ((None, False), cs') \<and>
         fmlookup (data cs') key = None \<and> cache_inv cs' (remove1 e as)"
    if "Expiration (store cs e) < Unix now"
  proof -
    have x: "IsExpired now (store cs e)" using that nz by (simp add: IsExpired_def)
    from Get_expired[OF i kne l x, of tAcc] obtain h' where h':
      "Get now tAcc key cs = Some ((None, False),
             cs\<lparr>data := fmdrop key (data cs), store := h',
                expiredRemovals := expiredRemovals cs + 1, misses := misses cs + 1\<rparr>)"
      "cache_inv (cs\<lparr>data := fmdrop key (data cs), store := h',
                expiredRemovals := expiredRemovals cs + 1, misses := misses cs + 1\<rparr>) (remove1 e as)"
      by blast
    show ?thesis
      by (rule exI[of _ "cs\<lparr>data := fmdrop key (data cs), store := h',
                expiredRemovals := expiredRemovals cs + 1, misses := misses cs + 1\<rparr>"])
         (use h' in simp)
  qed
  show "\<exists>cs'. Get now' tAcc key cs = Some ((Some e, True), cs')"
    if "Unix now' \<le> Expiration (store cs e)"
  proof -
    have x: "\<not> IsExpired now' (store cs e)" using that by (simp add: IsExpired_def)
    from Get_live[OF i kne l x, of tAcc] show ?thesis by blast
  qed
qed

text \<open>Witness for the amended C1: the entry \<open>''a''\<close>, read at 6 s and at 5 s.\<close>

theorem Get_expiry_strict_witness:
  "cache_inv exCache [3, 2] \<and> fmlookup (data exCache) ''a'' = Some 3 \<and>
   Expiration (store exCache 3) \<noteq> 0 \<and> Expiration (store exCache 3) < Unix 6000000000 \<and>
   Unix 5000000000 \<le> Expiration (store exCache 3) \<and>
   (\<exists>cs'. Get 6000000000 6000000001 ''a'' exCache = Some ((None, False), cs') \<and>
      fmlookup (data cs') ''a'' = None \<and> cache_inv cs' [2]) \<and>
   (\<exists>cs'. Get 5000000000 6000000001 ''a'' exCache = Some ((Some 3, True), cs'))"
proof -
  have f: "fmlookup (data exCache) ''a'' = Some 3" "Expiration (store exCache 3) \<noteq> 0"
    "Expiration (store exCache 3) < Unix 6000000000" "Unix 5000000000 \<le> Expiration (store exCache 3)"
    by (simp_all add: exCache_def Unix_def)
  from Get_expiry_strict[OF exCache_inv f(1,2), of 6000000000 6000000001 5000000000]
  show ?thesis using f exCache_inv by simp
qed

text \<open>
  Claim C2. From a new service of positive capacity, every sequence of \<open>Put\<close>, \<open>Get\<close>,
  \<open>Delete\<close>, \<open>Clear\<close> and sweep operations runs without a panic and ends in a well-formed
  state whose number of entries is at most the capacity. In such a state a \<open>Put\<close> of a
  new key while the number of entries is at or above the capacity removes exactly one
  key, the key of the node before \<open>tail\<close>, and inserts the new one, so the number of
  entries stays the same and the evictions counter goes up by one.
\<close>

theorem capacity_never_exceeded:
  fixes ops :: "'v op list"
  shows "0 < cap \<Longrightarrow>
    \<exists>cs as. run ops (NewCacheService cap dttl t0) = Some cs \<and> cache_inv cs as \<and>
      maxSize cs = cap \<and> len (data cs) \<le> cap \<and>
      (\<forall>tExp now key val ttl.
         key \<noteq> [] \<and> fmlookup (data cs) key = None \<and> cap \<le> len (data cs) \<longrightarrow>
           as \<noteq> [] \<and> Key (store cs (last as)) |\<in>| fmdom (data cs) \<and>
           (\<exists>cs'. Put tExp now key val ttl cs = Some (None, cs') \<and>
              fmdom (data cs') = finsert key (fmdom (data cs) |-| {|Key (store cs (last as))|}) \<and>
              len (data cs') = len (data cs) \<and> evictions cs' = evictions cs + 1 \<and>
              cache_inv cs' (fresh cs # butlast as)))"
proof -
  assume c: "0 < cap"
  from run_from_new[OF c, of ops dttl t0] obtain cs as where r:
    "run ops (NewCacheService cap dttl t0) = Some cs" "cache_inv cs as" "maxSize cs = cap"
    "int (length as) \<le> cap" by blast
  have le: "len (data cs) \<le> cap" using inv_len[OF r(2)] r(4) by simp
  have ev: "as \<noteq> [] \<and> Key (store cs (last as)) |\<in>| fmdom (data cs) \<and>
           (\<exists>cs'. Put tExp now key val ttl cs = Some (None, cs') \<and>
              fmdom (data cs') = finsert key (fmdom (data cs) |-| {|Key (store cs (last as))|}) \<and>
              len (data cs') = len (data cs) \<and> evictions cs' = evictions cs + 1 \<and>
              cache_inv cs' (fresh cs # butlast as))"
    if "key \<noteq> [] \<and> fmlookup (data cs) key = None \<and> cap \<le> len (data cs)"
    for tExp now key val ttl
    using Put_evicts[OF r(2), of key tExp now val ttl] that r(3) c by simp
  show ?thesis
    by (rule exI[of _ cs], rule exI[of _ as]) (use r(1,2,3) le ev in blast)
qed

text \<open>
  Witness for C2: capacity 2 and the two \<open>Put\<close>s that lead to the example state; there a
  \<open>Put\<close> of the new key \<open>''c''\<close> evicts \<open>''b''\<close>.
\<close>

theorem capacity_never_exceeded_witness:
  "(0::int) < 2 \<and>
   run [OpPut 0 0 ''b'' (Some 1) None, OpPut 0 0 ''a'' (Some 2) (Some 5000000000)]
       (NewCacheService 2 0 0) = Some exCache \<and>
   cache_inv exCache [3, 2] \<and> maxSize exCache = 2 \<and> len (data exCache) \<le> 2 \<and>
   ''c'' \<noteq> [] \<and> fmlookup (data exCache) ''c'' = None \<and> 2 \<le> len (data exCache) \<and>
   Key (store exCache 2) = ''b'' \<and>
   (\<exists>cs'. Put 7 8 ''c'' (Some 3) None exCache = Some (None, cs') \<and>
      fmdom (data cs') = {|''c'', ''a''|} \<and> len (data cs') = 2 \<and> evictions cs' = 1 \<and>
      cache_inv cs' [4, 3])"
proof -
  let ?ops = "[OpPut 0 0 ''b'' (Some 1) None, OpPut 0 0 ''a'' (Some 2) (Some 5000000000)] :: nat op list"
  have f: "fmlookup (data exCache) ''c'' = None" "len (data exCache) = 2" "Key (store exCache 2) = ''b''"
    "fresh exCache = 4" "evictions exCache = 0" "maxSize exCache = 2"
    by (simp_all add: exCache_def len_def fcard_finsert_if)
  have g: "fmdom (data exCache) |-| {|''b''|} = {|''a''|}"
    by (auto simp: exCache_def)
  from capacity_never_exceeded[of 2 ?ops 0 0] obtain cs as where r:
    "run ?ops (NewCacheService 2 0 0) = Some cs" "cache_inv cs as"
    "\<forall>tExp now key val ttl.
         key \<noteq> [] \<and> fmlookup (data cs) key = None \<and> 2 \<le> len (data cs) \<longrightarrow>
           as \<noteq> [] \<and> Key (store cs (last as)) |\<in>| fmdom (data cs) \<and>
           (\<exists>cs'. Put tExp now key val ttl cs = Some (None, cs') \<and>
              fmdom (data cs') = finsert key (fmdom (data cs) |-| {|Key (store cs (last as))|}) \<and>
              len (data cs') = len (data cs) \<and> evictions cs' = evictions cs + 1 \<and>
              cache_inv cs' (fresh cs # butlast as))"
    by auto
  have cs: "cs = exCache" using r(1) exCache_reached by simp
  have as: "as = [3, 2]" using cache_inv_unique[OF r(2)] exCache_inv unfolding cs by blast
  have "\<exists>cs'. Put 7 8 ''c'' (Some 3) None exCache = Some (None, cs') \<and>
      fmdom (data cs') = finsert ''c'' (fmdom (data exCache) |-| {|Key (store exCache (last [3, 2]))|}) \<and>
      len (data cs') = len (data exCache) \<and> evictions cs' = evictions exCache + 1 \<and>
      cache_inv cs' (fresh exCache # butlast [3, 2])"
    using r(3)[unfolded cs as, rule_format, of "''c''" 7 8 "Some 3" None] f(1,2) by simp
  then have "\<exists>cs'. Put 7 8 ''c'' (Some 3) None exCache = Some (None, cs') \<and>
      fmdom (data cs') = {|''c'', ''a''|} \<and> len (data cs') = 2 \<and> evictions cs' = 1 \<and>
      cache_inv cs' [4, 3]"
    using f g by simp
  then show ?thesis using f exCache_reached exCache_inv by simp
qed

text \<open>
  Claim C3. In a state reached from a new service of positive capacity and holding at
  least as many entries as the capacity, a \<open>Put\<close> of a new key evicts one key of the
  index, adds one to the evictions counter, and the evicted key is the least recently
  touched one: every other key of the index has been touched (by an accepted \<open>Put\<close> or a
  \<open>Get\<close> that found it live) more recently in the history.
\<close>

theorem eviction_least_recently_touched:
  fixes ops :: "'v op list"
  shows "0 < cap \<Longrightarrow> run ops (NewCacheService cap dttl t0) = Some cs \<Longrightarrow>
    key \<noteq> [] \<Longrightarrow> fmlookup (data cs) key = None \<Longrightarrow> maxSize cs \<le> len (data cs) \<Longrightarrow>
    \<exists>victim cs'. Put tExp now key val ttl cs = Some (None, cs') \<and>
      victim |\<in>| fmdom (data cs) \<and>
      fmdom (data cs') = finsert key (fmdom (data cs) |-| {|victim|}) \<and>
      evictions cs' = evictions cs + 1 \<and>
      (\<forall>k. k |\<in>| fmdom (data cs) \<and> k \<noteq> victim \<longrightarrow>
         age (touches ops (NewCacheService cap dttl t0) []) k
           < age (touches ops (NewCacheService cap dttl t0) []) victim)"
proof -
  assume c: "0 < cap" and run: "run ops (NewCacheService cap dttl t0) = Some cs"
    and kne: "key \<noteq> []" and l: "fmlookup (data cs) key = None" and full: "maxSize cs \<le> len (data cs)"
  let ?log = "touches ops (NewCacheService cap dttl t0 :: 'v CacheService) []"
  from run_from_new[OF c, of ops dttl t0] run obtain as where r:
    "cache_inv cs as" "maxSize cs = cap"
    "sorted_wrt (\<lambda>a b. age ?log a < age ?log b) (keysOf (store cs) as)" by auto
  let ?K = "keysOf (store cs) as"
  let ?v = "Key (store cs (last as))"
  have pos: "0 < maxSize cs" using r(2) c by simp
  from Put_evicts[OF r(1) kne l full pos, of tExp now val ttl] obtain cs' where p:
    "as \<noteq> []" "?v |\<in>| fmdom (data cs)" "Put tExp now key val ttl cs = Some (None, cs')"
    "fmdom (data cs') = finsert key (fmdom (data cs) |-| {|?v|})"
    "evictions cs' = evictions cs + 1" by blast
  have Kne: "?K \<noteq> []" using p(1) by (simp add: keysOf_def)
  have lv: "last ?K = ?v" using p(1) by (simp add: keysOf_def last_map)
  have "sorted_wrt (\<lambda>a b. age ?log a < age ?log b) (butlast ?K @ [last ?K])"
    using r(3) Kne by simp
  then have older: "\<forall>k\<in>set (butlast ?K). age ?log k < age ?log ?v"
    unfolding lv by (simp add: sorted_wrt_append)
  have dom: "fmdom (data cs) = fset_of_list ?K" using r(1) by (simp add: cache_inv_def)
  have lru: "age ?log k < age ?log ?v" if "k |\<in>| fmdom (data cs) \<and> k \<noteq> ?v" for k
  proof -
    have "k \<in> set ?K" using that dom by (simp add: fset_of_list.rep_eq)
    then have "k \<in> set (butlast ?K @ [last ?K])" using Kne by simp
    then have "k \<in> set (butlast ?K)" using that lv by auto
    then show ?thesis using older by blast
  qed
  show ?thesis
    by (rule exI[of _ ?v], rule exI[of _ cs']) (use p(2-5) lru in blast)
qed

text \<open>
  Witness for C3: after \<open>Put(b)\<close> and \<open>Put(a)\<close> on a new service of capacity 2, the key
  \<open>''a''\<close> is the last touched; a \<open>Put\<close> of the new key \<open>''c''\<close> evicts \<open>''b''\<close>.
\<close>

theorem eviction_least_recently_touched_witness:
  "(0::int) < 2 \<and>
   run [OpPut 0 0 ''b'' (Some 1) None, OpPut 0 0 ''a'' (Some 2) (Some 5000000000)]
       (NewCacheService 2 0 0) = Some exCache \<and>
   ''c'' \<noteq> [] \<and> fmlookup (data exCache) ''c'' = None \<and> maxSize exCache \<le> len (data exCache) \<and>
   touches [OpPut 0 0 ''b'' (Some 1) None, OpPut 0 0 ''a'' (Some 2) (Some 5000000000)]
       (NewCacheService 2 0 0 :: nat CacheService) [] = [''a'', ''b''] \<and>
   age [''a'', ''b''] ''a'' < age [''a'', ''b''] ''b'' \<and>
   (\<exists>cs'. Put 7 8 ''c'' (Some 3) None exCache = Some (None, cs') \<and>
      fmdom (data cs') = {|''c'', ''a''|} \<and> evictions cs' = 1)"
proof -
  let ?ops = "[OpPut 0 0 ''b'' (Some 1) None, OpPut 0 0 ''a'' (Some 2) (Some 5000000000)] :: nat op list"
  have f: "fmlookup (data exCache) ''c'' = None" "maxSize exCache \<le> len (data exCache)"
    "evictions exCache = 0" "fmdom (data exCache) = {|''a'', ''b''|}"
    by (simp_all add: exCache_def len_def fcard_finsert_if)
  have g: "{|''a'', ''b''|} |-| {|''b''|} = {|''a''|}" by auto
  have c: "(0::int) < 2" and k: "''c'' \<noteq> []" by simp_all
  from eviction_least_recently_touched[OF c exCache_reached k f(1,2), of 7 8 "Some 3" None]
  obtain victim cs' where v:
    "Put 7 8 ''c'' (Some 3) None exCache = Some (None, cs')" "victim |\<in>| fmdom (data exCache)"
    "fmdom (data cs') = finsert ''c'' (fmdom (data exCache) |-| {|victim|})"
    "evictions cs' = evictions exCache + 1"
    "\<forall>k. k |\<in>| fmdom (data exCache) \<and> k \<noteq> victim \<longrightarrow>
         age [''a'', ''b''] k < age [''a'', ''b''] victim"
    unfolding exCache_touches by blast
  have "victim = ''b''"
  proof (rule ccontr)
    assume n: "victim \<noteq> ''b''"
    then have a: "victim = ''a''" using v(2) f(4) by simp
    have "''b'' |\<in>| fmdom (data exCache) \<and> ''b'' \<noteq> victim" using a f(4) by simp
    then have "age [''a'', ''b''] ''b'' < age [''a'', ''b''] victim" using v(5) by blast
    then show False unfolding a by simp
  qed
  then have "fmdom (data cs') = {|''c'', ''a''|}" "evictions cs' = 1"
    using v(3,4) f(3,4) g by simp_all
  with v(1) have "\<exists>cs'. Put 7 8 ''c'' (Some 3) None exCache = Some (None, cs') \<and>
      fmdom (data cs') = {|''c'', ''a''|} \<and> evictions cs' = 1" by blast
  then show ?thesis using f(1,2) exCache_reached exCache_touches by simp
qed

text \<open>
  Claim C4. In a well-formed state, \<open>Put\<close> of a non-empty key succeeds, and a \<open>Get\<close> of the
  same key that follows it and reads the clock before the TTL has elapsed (counted from
  the clock read of \<open>Put\<close>; no condition when the entry does not expire) finds the entry:
  it returns a pointer to an entry with that key and the written value.
\<close>

theorem Put_then_Get:
  "cache_inv cs as \<Longrightarrow> key \<noteq> [] \<Longrightarrow>
   (\<forall>d. effectiveTTL ttl cs = Some d \<longrightarrow> tChk < tExp + d) \<Longrightarrow>
   \<exists>cs' e cs''. Put tExp now key val ttl cs = Some (None, cs') \<and>
     Get tChk tAcc key cs' = Some ((Some e, True), cs'') \<and>
     Key (store cs'' e) = key \<and> Value (store cs'' e) = val"
proof -
  assume i: "cache_inv cs as" and kne: "key \<noteq> []"
    and t: "\<forall>d. effectiveTTL ttl cs = Some d \<longrightarrow> tChk < tExp + d"
  from Put_summary[OF i kne, of tExp now val ttl] obtain cs' e as' where p:
    "Put tExp now key val ttl cs = Some (None, cs')" "cache_inv cs' (e # as')"
    "Key (store cs' e) = key" "Value (store cs' e) = val"
    "Expiration (store cs' e) = putExpiration tExp ttl cs" by blast
  have l: "fmlookup (data cs') key = Some e" using inv_head_lookup[OF p(2)] p(3) by simp
  have live: "\<not> IsExpired tChk (store cs' e)"
  proof (cases "effectiveTTL ttl cs")
    case None
    then show ?thesis using p(5) by (simp add: IsExpired_def putExpiration_effective)
  next
    case (Some d)
    then have "tChk \<le> tExp + d" using t by auto
    then have "Unix tChk \<le> Unix (tExp + d)" by (rule Unix_mono)
    then show ?thesis using p(5) Some by (simp add: IsExpired_def putExpiration_effective)
  qed
  from Get_live[OF p(2) kne l live, of tAcc] obtain h'' where g:
    "Get tChk tAcc key cs' = Some ((Some e, True), cs'\<lparr>store := h'', hits := hits cs' + 1\<rparr>)"
    "links_only ((store cs')(e := UpdateAccessTime tAcc (store cs' e))) h''" by blast
  have "Key (h'' e) = key" "Value (h'' e) = val"
    using links_only_fields[OF g(2), of e] p(3,4) by (simp_all add: UpdateAccessTime_def)
  with p(1) g(1) show ?thesis
    by (intro exI[of _ cs'] exI[of _ e] exI[of _ "cs'\<lparr>store := h'', hits := hits cs' + 1\<rparr>"]) simp
qed

text \<open>
  Witness for C4: on the example state, \<open>Put(c, 7, ttl = 1s)\<close> at time 0.5 s, which evicts
  \<open>''b''\<close>, then \<open>Get(c)\<close> at time 1.2 s.
\<close>

theorem Put_then_Get_witness:
  "cache_inv exCache [3, 2] \<and> ''c'' \<noteq> [] \<and>
   effectiveTTL (Some 1000000000) exCache = Some 1000000000 \<and>
   (1200000000 :: int) < 500000000 + 1000000000 \<and>
   (\<exists>cs' e cs''. Put 500000000 500000001 ''c'' (Some 7) (Some 1000000000) exCache = Some (None, cs') \<and>
     Get 1200000000 1200000001 ''c'' cs' = Some ((Some e, True), cs'') \<and>
     Key (store cs'' e) = ''c'' \<and> Value (store cs'' e) = Some 7)"
proof -
  have e: "effectiveTTL (Some 1000000000) exCache = Some 1000000000"
    by (simp add: effectiveTTL_def)
  have "\<forall>d. effectiveTTL (Some 1000000000) exCache = Some d \<longrightarrow> (1200000000 :: int) < 500000000 + d"
    unfolding e by simp
  from Put_then_Get[OF exCache_inv _ this, of "''c''" 500000001 "Some 7" 1200000001]
  show ?thesis using e exCache_inv by simp
qed

text \<open>
  Claim C5. In a well-formed state with recency list \<open>as\<close>, \<open>Get\<close> of the empty key
  reports not-found and returns the state as it was; \<open>Get\<close> of a missing key reports
  not-found and changes the misses counter only, by one; \<open>Get\<close> of a present key whose
  entry \<open>IsExpired\<close> removes the key from the index and the node from the recency list
  (which becomes \<open>as\<close> without that node), adds one to the expired-removals and to the
  misses counter, and reports not-found; \<open>Get\<close> of a present live key returns the entry,
  moves its node to the front of the recency list and adds one to the hits counter only
  (the store changes in the links and in the access time of that entry).
\<close>

theorem Get_outcomes:
  "cache_inv cs as \<Longrightarrow>
   Get tChk tAcc [] cs = Some ((None, False), cs) \<and>
   (kM \<noteq> [] \<and> fmlookup (data cs) kM = None \<longrightarrow>
      Get tChk tAcc kM cs = Some ((None, False), cs\<lparr>misses := misses cs + 1\<rparr>)) \<and>
   (fmlookup (data cs) kE = Some eE \<and> IsExpired tChk (store cs eE) \<longrightarrow>
      (\<exists>h'. Get tChk tAcc kE cs = Some ((None, False),
                cs\<lparr>data := fmdrop kE (data cs), store := h',
                   expiredRemovals := expiredRemovals cs + 1, misses := misses cs + 1\<rparr>) \<and>
            links_only (store cs) h' \<and>
            cache_inv (cs\<lparr>data := fmdrop kE (data cs), store := h',
                   expiredRemovals := expiredRemovals cs + 1, misses := misses cs + 1\<rparr>)
              (remove1 eE as))) \<and>
   (fmlookup (data cs) kL = Some eL \<and> \<not> IsExpired tChk (store cs eL) \<longrightarrow>
      (\<exists>h'. Get tChk tAcc kL cs = Some ((Some eL, True), cs\<lparr>store := h', hits := hits cs + 1\<rparr>) \<and>
            links_only ((store cs)(eL := UpdateAccessTime tAcc (store cs eL))) h' \<and>
            cache_inv (cs\<lparr>store := h', hits := hits cs + 1\<rparr>) (eL # remove1 eL as)))"
proof (intro conjI impI)
  assume i: "cache_inv cs as"
  show "Get tChk tAcc [] cs = Some ((None, False), cs)" by (rule Get_empty)
  show "Get tChk tAcc kM cs = Some ((None, False), cs\<lparr>misses := misses cs + 1\<rparr>)"
    if "kM \<noteq> [] \<and> fmlookup (data cs) kM = None"
    using that by (simp add: Get_missing)
  show "\<exists>h'. Get tChk tAcc kE cs = Some ((None, False),
                cs\<lparr>data := fmdrop kE (data cs), store := h',
                   expiredRemovals := expiredRemovals cs + 1, misses := misses cs + 1\<rparr>) \<and>
            links_only (store cs) h' \<and>
            cache_inv (cs\<lparr>data := fmdrop kE (data cs), store := h',
                   expiredRemovals := expiredRemovals cs + 1, misses := misses cs + 1\<rparr>)
              (remove1 eE as)"
    if h: "fmlookup (data cs) kE = Some eE \<and> IsExpired tChk (store cs eE)"
  proof -
    have "kE \<noteq> []" using inv_key_nonempty[OF i] h by blast
    from Get_expired[OF i this, of eE tChk tAcc] h show ?thesis by blast
  qed
  show "\<exists>h'. Get tChk tAcc kL cs = Some ((Some eL, True), cs\<lparr>store := h', hits := hits cs + 1\<rparr>) \<and>
            links_only ((store cs)(eL := UpdateAccessTime tAcc (store cs eL))) h' \<and>
            cache_inv (cs\<lparr>store := h', hits := hits cs + 1\<rparr>) (eL # remove1 eL as)"
    if h: "fmlookup (data cs) kL = Some eL \<and> \<not> IsExpired tChk (store cs eL)"
  proof -
    have "kL \<noteq> []" using inv_key_nonempty[OF i] h by blast
    from Get_live[OF i this, of eL tChk tAcc] h show ?thesis by blast
  qed
qed

text \<open>
  Witness for C5: the four cases on the example state, read at second 6; the recency
  list \<open>[3, 2]\<close> becomes \<open>[2]\<close> when the expired \<open>''a''\<close> is read and \<open>[2, 3]\<close> when the
  live \<open>''b''\<close> is read.
\<close>

theorem Get_outcomes_witness:
  "cache_inv exCache [3, 2] \<and>
   fmlookup (data exCache) ''c'' = None \<and>
   fmlookup (data exCache) ''a'' = Some 3 \<and> IsExpired 6000000000 (store exCache 3) \<and>
   fmlookup (data exCache) ''b'' = Some 2 \<and> \<not> IsExpired 6000000000 (store exCache 2) \<and>
   Get 6000000000 6000000001 [] exCache = Some ((None, False), exCache) \<and>
   Get 6000000000 6000000001 ''c'' exCache = Some ((None, False), exCache\<lparr>misses := 1\<rparr>) \<and>
   (\<exists>h'. Get 6000000000 6000000001 ''a'' exCache = Some ((None, False),
            exCache\<lparr>data := fmupd ''b'' 2 fmempty, store := h', expiredRemovals := 1, misses := 1\<rparr>) \<and>
         cache_inv (exCache\<lparr>data := fmupd ''b'' 2 fmempty, store := h',
            expiredRemovals := 1, misses := 1\<rparr>) [2]) \<and>
   (\<exists>h'. Get 6000000000 6000000001 ''b'' exCache = Some ((Some 2, True),
            exCache\<lparr>store := h', hits := 1\<rparr>) \<and>
         cache_inv (exCache\<lparr>store := h', hits := 1\<rparr>) [2, 3])"
proof -
  have f: "fmlookup (data exCache) ''c'' = None" "fmlookup (data exCache) ''a'' = Some 3"
    "IsExpired 6000000000 (store exCache 3)" "fmlookup (data exCache) ''b'' = Some 2"
    "\<not> IsExpired 6000000000 (store exCache 2)"
    by (simp_all add: exCache_def IsExpired_def Unix_def)
  have d: "fmdrop ''a'' (data exCache) = fmupd ''b'' 2 fmempty"
    "misses exCache + 1 = 1" "expiredRemovals exCache + 1 = 1" "hits exCache + 1 = 1"
    by (simp_all add: exCache_def fmdrop_fmupd)
  have l: "remove1 3 [3, 2 :: nat] = [2]" "2 # remove1 2 [3, 2 :: nat] = [2, 3]" by simp_all
  from Get_outcomes[OF exCache_inv, where kM = "''c''" and kE = "''a''" and eE = 3
      and kL = "''b''" and eL = 2 and tChk = 6000000000 and tAcc = 6000000001]
  show ?thesis using f exCache_inv unfolding d l by blast
qed

text \<open>
  Claim C6. \<open>Clear\<close> returns the number of entries in the index, which in a well-formed
  state is the length of the recency list; afterwards the index is empty, the recency
  list is empty (\<open>head\<close> and \<open>tail\<close> are linked to each other), and the four counters are
  as before. On an empty cache \<open>Clear\<close> returns 0 and leaves the cache empty.
\<close>

theorem Clear_empties:
  "cache_inv cs as \<Longrightarrow>
   fst (Clear cs) = len (data cs) \<and> fst (Clear cs) = int (length as) \<and>
   data (snd (Clear cs)) = fmempty \<and> cache_inv (snd (Clear cs)) [] \<and>
   hits (snd (Clear cs)) = hits cs \<and> misses (snd (Clear cs)) = misses cs \<and>
   evictions (snd (Clear cs)) = evictions cs \<and>
   expiredRemovals (snd (Clear cs)) = expiredRemovals cs \<and>
   (cache_inv cs0 [] \<longrightarrow>
      fst (Clear cs0) = 0 \<and> data (snd (Clear cs0)) = fmempty \<and> cache_inv (snd (Clear cs0)) [])"
proof -
  assume i: "cache_inv cs as"
  have a: "fst (Clear cs) = len (data cs)" by (simp add: Clear_def Let_def)
  have b: "data (snd (Clear cs)) = fmempty" "hits (snd (Clear cs)) = hits cs"
    "misses (snd (Clear cs)) = misses cs" "evictions (snd (Clear cs)) = evictions cs"
    "expiredRemovals (snd (Clear cs)) = expiredRemovals cs"
    by (simp_all add: Clear_def Let_def upd_def)
  have c: "fst (Clear cs0) = 0 \<and> data (snd (Clear cs0)) = fmempty \<and> cache_inv (snd (Clear cs0)) []"
    if i0: "cache_inv cs0 []"
  proof -
    have "fst (Clear cs0) = len (data cs0)" by (simp add: Clear_def Let_def)
    moreover have "data (snd (Clear cs0)) = fmempty" by (simp add: Clear_def Let_def upd_def)
    ultimately show ?thesis using inv_len[OF i0] Clear_inv[OF i0] by simp
  qed
  show ?thesis using a b c inv_len[OF i] Clear_inv[OF i] by simp
qed

text \<open>Witness for C6: the example state (two entries) and a new service (none).\<close>

theorem Clear_empties_witness:
  "cache_inv exCache [3, 2] \<and> cache_inv (NewCacheService 2 0 0 :: nat CacheService) [] \<and>
   fst (Clear exCache) = 2 \<and> data (snd (Clear exCache)) = fmempty \<and>
   cache_inv (snd (Clear exCache)) [] \<and>
   hits (snd (Clear exCache)) = 0 \<and> misses (snd (Clear exCache)) = 0 \<and>
   evictions (snd (Clear exCache)) = 0 \<and> expiredRemovals (snd (Clear exCache)) = 0 \<and>
   fst (Clear (NewCacheService 2 0 0 :: nat CacheService)) = 0 \<and>
   data (snd (Clear (NewCacheService 2 0 0 :: nat CacheService))) = fmempty \<and>
   cache_inv (snd (Clear (NewCacheService 2 0 0 :: nat CacheService))) []"
proof -
  have f: "hits exCache = 0" "misses exCache = 0" "evictions exCache = 0" "expiredRemovals exCache = 0"
    by (simp_all add: exCache_def)
  have n: "cache_inv (NewCacheService 2 0 0 :: nat CacheService) []"
    by (rule NewCacheService_inv)
  from Clear_empties[OF exCache_inv, where ?cs0.0 = "NewCacheService 2 0 0 :: nat CacheService"]
  show ?thesis using f exCache_inv n by simp
qed

text \<open>
  Claim C7. In a well-formed state \<open>BulkGet\<close> ends in the state that \<open>Get\<close>, applied once
  per element of the list in the order of the list, ends in, so every occurrence of a
  key, duplicates included, moves the entry in the recency list and counts as a hit or a
  miss of its own: the hits counter goes up by the number of occurrences found and the
  misses counter by the number of occurrences of a non-empty key not found. Every
  occurrence has an outcome under its key: when found, the value and creation time the
  index held for that key; when not found, the not-found marker. The result map of the
  response holds, for exactly the requested keys, the outcome of the last occurrence of
  the key, and the response counts the occurrences found and not found, which add up to
  the length of the list.
\<close>

theorem BulkGet_is_Get_per_key:
  "cache_inv cs as \<Longrightarrow>
   \<exists>rs resp cs'. getEach clk 0 keys cs = Some (rs, cs') \<and>
     BulkGet clk keys cs = Some (resp, cs') \<and> map rKey rs = keys \<and>
     (\<forall>r\<in>set rs. if rFound r
        then \<exists>a. fmlookup (data cs) (rKey r) = Some a \<and> rValue r = Value (store cs a) \<and>
               rCreatedAt r = CreatedAt (store cs a)
        else r = notFoundResponse (rKey r)) \<and>
     (\<forall>k. fmlookup (Results resp) k = map_of (rev (zip keys rs)) k) \<and>
     (\<forall>k\<in>set keys. \<exists>r\<in>set rs. fmlookup (Results resp) k = Some r \<and> rKey r = k) \<and>
     fmdom (Results resp) = fset_of_list keys \<and>
     Found resp = int (length (filter rFound rs)) \<and>
     NotFound resp = int (length (filter (\<lambda>r. \<not> rFound r) rs)) \<and>
     Found resp + NotFound resp = int (length keys) \<and>
     hits cs' = hits cs + of_nat (length (filter rFound rs)) \<and>
     misses cs' = misses cs + of_nat (missCount keys (map rFound rs))"
proof -
  assume i: "cache_inv cs as"
  let ?r0 = "\<lparr>Results = fmempty, Found = 0, NotFound = 0\<rparr> :: 'a BulkGetResponse"
  from bulkGetLoop_spec[OF i, of clk 0 keys ?r0] obtain rs resp cs' where b:
    "getEach clk 0 keys cs = Some (rs, cs')"
    "bulkGetLoop clk 0 keys ?r0 cs = Some (resp, cs')"
    "map rKey rs = keys"
    "Found resp = Found ?r0 + int (length (filter rFound rs))"
    "NotFound resp = NotFound ?r0 + int (length (filter (\<lambda>r. \<not> rFound r) rs))"
    "hits cs' = hits cs + of_nat (length (filter rFound rs))"
    "misses cs' = misses cs + of_nat (missCount keys (map rFound rs))"
    "\<forall>k. fmlookup (Results resp) k =
        (case map_of (rev (zip keys rs)) k of Some r \<Rightarrow> Some r | None \<Rightarrow> fmlookup (Results ?r0) k)"
    "\<forall>r\<in>set rs. if rFound r
        then \<exists>a. fmlookup (data cs) (rKey r) = Some a \<and> rValue r = Value (store cs a) \<and>
               rCreatedAt r = CreatedAt (store cs a)
        else r = notFoundResponse (rKey r)"
    by blast
  have g: "BulkGet clk keys cs = Some (resp, cs')" using b(2) by (simp add: BulkGet_def)
  have f: "Found resp = int (length (filter rFound rs))"
    and n: "NotFound resp = int (length (filter (\<lambda>r. \<not> rFound r) rs))"
    using b(4,5) by simp_all
  have len: "length rs = length keys" using b(3) by (metis length_map)
  have s: "Found resp + NotFound resp = int (length keys)"
    using f n sum_length_filter_compl[of rFound rs] len by simp
  have look: "\<forall>k. fmlookup (Results resp) k = map_of (rev (zip keys rs)) k"
    using b(8) by (simp split: option.splits)
  have each: "\<forall>k\<in>set keys. \<exists>r\<in>set rs. fmlookup (Results resp) k = Some r \<and> rKey r = k"
    using last_outcome[OF b(3)] look by simp
  have d: "fmdom (Results resp) = fset_of_list keys"
  proof (rule fset_eqI)
    fix k
    show "k |\<in>| fmdom (Results resp) \<longleftrightarrow> k |\<in>| fset_of_list keys"
    proof (cases "k \<in> set keys")
      case True
      then obtain r where "fmlookup (Results resp) k = Some r" using each by blast
      then have "k |\<in>| fmdom (Results resp)" by (rule fmdomI)
      then show ?thesis using True by (simp add: fset_of_list.rep_eq)
    next
      case False
      then have "fmlookup (Results resp) k = None" using last_outcome[OF b(3), of k] look by simp
      then have "k |\<notin>| fmdom (Results resp)" by (rule fmdom_notI)
      then show ?thesis using False by (simp add: fset_of_list.rep_eq)
    qed
  qed
  show ?thesis
    by (rule exI[of _ rs], rule exI[of _ resp], rule exI[of _ cs'])
       (intro conjI b(1) g b(3) b(9) look each d f n s b(6) b(7))
qed

text \<open>
  Witness for C7: on the example state, read at second 6, \<open>BulkGet\<close> of \<open>''b''\<close> twice and
  of the missing \<open>''c''\<close> counts two found and one not found, two hits and one miss, and
  reports \<open>''b''\<close> found with its value 1 and \<open>''c''\<close> not found.
\<close>

theorem BulkGet_is_Get_per_key_witness:
  "cache_inv exCache [3, 2] \<and>
   (\<exists>resp cs'. BulkGet (\<lambda>_. (6000000000, 6000000001, 6000000002)) [''b'', ''b'', ''c''] exCache
        = Some (resp, cs') \<and>
      Found resp = 2 \<and> NotFound resp = 1 \<and> hits cs' = 2 \<and> misses cs' = 1 \<and>
      fmdom (Results resp) = {|''b'', ''c''|} \<and>
      (\<exists>r. fmlookup (Results resp) ''b'' = Some r \<and> rKey r = ''b'' \<and> rFound r \<and>
           rValue r = Some 1) \<and>
      fmlookup (Results resp) ''c'' = Some (notFoundResponse ''c''))"
proof -
  let ?clk = "\<lambda>_::nat. (6000000000 :: int, 6000000001 :: int, 6000000002 :: int)"
  let ?keys = "[''b'', ''b'', ''c'']"
  from exCache_getEach obtain rs0 c where c:
    "getEach ?clk 0 ?keys exCache = Some (rs0, c)" "map rFound rs0 = [True, True, False]" by auto
  from BulkGet_is_Get_per_key[OF exCache_inv, of ?clk ?keys] c(1)
  obtain resp cs' where r:
    "BulkGet ?clk ?keys exCache = Some (resp, cs')" "map rKey rs0 = ?keys"
    "\<forall>r\<in>set rs0. if rFound r
        then \<exists>a. fmlookup (data exCache) (rKey r) = Some a \<and> rValue r = Value (store exCache a) \<and>
               rCreatedAt r = CreatedAt (store exCache a)
        else r = notFoundResponse (rKey r)"
    "\<forall>k. fmlookup (Results resp) k = map_of (rev (zip ?keys rs0)) k"
    "fmdom (Results resp) = fset_of_list ?keys"
    "Found resp = int (length (filter rFound rs0))"
    "NotFound resp = int (length (filter (\<lambda>r. \<not> rFound r) rs0))"
    "hits cs' = hits exCache + of_nat (length (filter rFound rs0))"
    "misses cs' = misses exCache + of_nat (missCount ?keys (map rFound rs0))"
    by auto
  obtain r0 r1 r2 where rs: "rs0 = [r0, r1, r2]"
    using c(2) by (cases rs0; cases "tl rs0"; cases "tl (tl rs0)") auto
  have fl: "rFound r0" "rFound r1" "\<not> rFound r2" using c(2) rs by simp_all
  have ks: "rKey r0 = ''b''" "rKey r1 = ''b''" "rKey r2 = ''c''" using r(2) rs by simp_all
  have z: "hits exCache = 0" "misses exCache = 0" by (simp_all add: exCache_def)
  have cnt: "Found resp = 2" "NotFound resp = 1" "hits cs' = 2" "misses cs' = 1"
    "fmdom (Results resp) = {|''b'', ''c''|}"
    using r(5-9) z fl rs by simp_all
  have lb: "fmlookup (Results resp) ''b'' = Some r1" and lc: "fmlookup (Results resp) ''c'' = Some r2"
    using r(4) rs by simp_all
  have "\<exists>a. fmlookup (data exCache) ''b'' = Some a \<and> rValue r1 = Value (store exCache a)"
    using r(3) rs fl(2) ks(2) by auto
  then have v1: "rValue r1 = Some 1" by (auto simp: exCache_def)
  have n2: "r2 = notFoundResponse ''c''" using r(3) rs fl(3) ks(3) by auto
  have "\<exists>r. fmlookup (Results resp) ''b'' = Some r \<and> rKey r = ''b'' \<and> rFound r \<and> rValue r = Some 1"
    using lb ks(2) fl(2) v1 by simp
  with r(1) cnt lc n2 exCache_inv show ?thesis by simp
qed

text \<open>
  Claim C9. \<open>Delete\<close> of a key that is in the index removes the key from the index and
  its node from the recency list and returns found and deleted both true, leaving the
  hits, misses, evictions and expired-removals counters as they were. \<open>Delete\<close> reads no
  clock and no expiration, so this holds in particular for an entry that has expired and
  has not been swept.
\<close>

theorem Delete_present_ignores_expiry:
  "cache_inv cs as \<Longrightarrow> fmlookup (data cs) key = Some e \<Longrightarrow>
   \<exists>cs'. Delete key cs = Some ((True, True), cs') \<and>
     fmlookup (data cs') key = None \<and> cache_inv cs' (remove1 e as) \<and>
     hits cs' = hits cs \<and> misses cs' = misses cs \<and>
     evictions cs' = evictions cs \<and> expiredRemovals cs' = expiredRemovals cs"
proof -
  assume i: "cache_inv cs as" and l: "fmlookup (data cs) key = Some e"
  from Delete_present[OF i l] obtain h' where h':
    "Delete key cs = Some ((True, True), cs\<lparr>data := fmdrop key (data cs), store := h'\<rparr>)"
    "cache_inv (cs\<lparr>data := fmdrop key (data cs), store := h'\<rparr>) (remove1 e as)" by blast
  show ?thesis
    by (rule exI[of _ "cs\<lparr>data := fmdrop key (data cs), store := h'\<rparr>"]) (use h' in simp)
qed

text \<open>Witness for C9: the entry \<open>''a''\<close> of the example state, expired at second 6.\<close>

theorem Delete_present_ignores_expiry_witness:
  "cache_inv exCache [3, 2] \<and> fmlookup (data exCache) ''a'' = Some 3 \<and>
   IsExpired 6000000000 (store exCache 3) \<and>
   (\<exists>cs'. Delete ''a'' exCache = Some ((True, True), cs') \<and>
     fmlookup (data cs') ''a'' = None \<and> cache_inv cs' [2] \<and>
     hits cs' = 0 \<and> misses cs' = 0 \<and> evictions cs' = 0 \<and> expiredRemovals cs' = 0)"
proof -
  have f: "fmlookup (data exCache) ''a'' = Some 3" "IsExpired 6000000000 (store exCache 3)"
    "hits exCache = 0" "misses exCache = 0" "evictions exCache = 0" "expiredRemovals exCache = 0"
    by (simp_all add: exCache_def IsExpired_def Unix_def)
  from Delete_present_ignores_expiry[OF exCache_inv f(1)]
  show ?thesis using f exCache_inv by simp
qed

text \<open>
  Claim C10. \<open>Put\<close> with the empty key returns the invalid-key error and the state it
  was given: the index, the recency list, the store and all counters are untouched,
  whatever the value, the TTL and the state.
\<close>

theorem Put_empty_key_unchanged:
  "Put tExp now [] val ttl cs = Some (Some InvalidKey, cs)"
  by (simp add: Put_def)

end
